theory Spec2Isabelle
  imports Main "HOL-Library.Multiset"
begin

section \<open>Data model\<close>

text \<open>
  Timestamps are Go \<^verbatim>\<open>int64\<close> values. The code under study only compares and copies
  them, so they are modelled as \<^typ>\<open>int\<close>: the order of \<^verbatim>\<open>int64\<close> is the order of
  the integers restricted to the 64-bit range, and no arithmetic on timestamps occurs in the
  functions embedded here. The counters \<^verbatim>\<open>size\<close> and \<^verbatim>\<open>numPoints\<close> are
  incremented once per stored point; each stored point occupies memory, so they stay far
  below \<open>2 ^ 63\<close> and are modelled as \<^typ>\<open>int\<close> as well.
\<close>

record 'a DataPoint =
  Timestamp :: int
  Value :: 'a

record Label =
  Name :: string
  LabelValue :: string

text \<open>
  \<^verbatim>\<open>Row\<close> embeds \<^verbatim>\<open>DataPoint\<close>, so \<^verbatim>\<open>row.Timestamp\<close> is the promoted field;
  the record extension gives the same reading, and \<^verbatim>\<open>&row.DataPoint\<close> is
  \<open>DataPoint.truncate row\<close>.
\<close>

record 'a Row = "'a DataPoint" +
  Metric :: string
  Labels :: "Label list"

text \<open>
  Errors are values. \<open>NoRowsGiven\<close>, \<open>WalWriteFailed\<close>, \<open>EncodeFailed\<close>,
  \<open>EmptyPartition\<close>, \<open>PartitionNotFound\<close> and \<open>CleanFailed\<close> are the errors the code
  returns; \<open>IndexOutOfRange\<close> and \<open>SliceBoundsOutOfRange\<close> are the run-time panics of
  an index expression and of a slice expression.
\<close>

datatype error =
    NoRowsGiven
  | WalWriteFailed string
  | EncodeFailed string
  | EmptyPartition
  | PartitionNotFound
  | CleanFailed string
  | IndexOutOfRange
  | SliceBoundsOutOfRange

section \<open>memoryMetric\<close>

text \<open>
  The struct \<^verbatim>\<open>memoryMetric\<close>. The field \<^verbatim>\<open>size\<close> is called \<open>msize\<close> here
  (\<open>size\<close> is a constant of HOL). The points are immutable once stored, so the slices of
  pointers \<^verbatim>\<open>[]*DataPoint[T]\<close> are lists of values. The mutex is left out: the model is
  sequential.
\<close>

record 'a memoryMetric =
  name :: string
  msize :: int
  minTimestamp :: int
  maxTimestamp :: int
  points :: "'a DataPoint list"
  outOfOrderPoints :: "'a DataPoint list"

text \<open>
  \<^verbatim>\<open>insertPoint\<close>. The index expression \<^verbatim>\<open>m.points[size-1]\<close> panics when
  \<^verbatim>\<open>size-1\<close> is not an index of \<^verbatim>\<open>m.points\<close>.
\<close>

definition insertPoint :: "'a memoryMetric \<Rightarrow> 'a DataPoint \<Rightarrow> error + 'a memoryMetric" where
  "insertPoint m point =
    (let size = msize m in
     if size = 0 then
       Inr (m\<lparr>points := points m @ [point],
              minTimestamp := Timestamp point,
              maxTimestamp := Timestamp point,
              msize := msize m + 1\<rparr>)
     else if size - 1 < 0 \<or> int (length (points m)) \<le> size - 1 then Inl IndexOutOfRange
     else if Timestamp (points m ! nat (size - 1)) < Timestamp point then
       Inr (m\<lparr>points := points m @ [point],
              maxTimestamp := Timestamp point,
              msize := msize m + 1\<rparr>)
     else Inr (m\<lparr>outOfOrderPoints := outOfOrderPoints m @ [point]\<rparr>))"

text \<open>
  The invariant of a series: \<^verbatim>\<open>size\<close> is the length of \<^verbatim>\<open>points\<close>, the points are
  ascending by timestamp, and \<^verbatim>\<open>minTimestamp\<close> and \<^verbatim>\<open>maxTimestamp\<close> are the
  timestamps of the first and of the last point when there is one.
\<close>

definition series_inv :: "'a memoryMetric \<Rightarrow> bool" where
  "series_inv m \<longleftrightarrow>
     msize m = int (length (points m)) \<and>
     sorted (map Timestamp (points m)) \<and>
     (points m \<noteq> [] \<longrightarrow>
        minTimestamp m = Timestamp (points m ! 0) \<and>
        maxTimestamp m = Timestamp (points m ! (length (points m) - 1)))"

text \<open>
  \<^verbatim>\<open>sort.Search(n, f)\<close> of the Go standard library, as \<^verbatim>\<open>selectPoints\<close> calls it:
  the binary search \<^verbatim>\<open>i, j := 0, n; for i < j { h := int(uint(i+j) >> 1);
  if !f(h) { i = h + 1 } else { j = h } }; return i\<close>. The callback indexes
  \<^verbatim>\<open>m.points\<close> and may panic, so it returns a sum. A negative \<^verbatim>\<open>n\<close> gives 0, as in Go.
\<close>

function Search_loop :: "(nat \<Rightarrow> error + bool) \<Rightarrow> nat \<Rightarrow> nat \<Rightarrow> error + nat" where
  "Search_loop f i j =
     (if i < j then
        (let h = (i + j) div 2 in
         case f h of
           Inl e \<Rightarrow> Inl e
         | Inr b \<Rightarrow> if \<not> b then Search_loop f (h + 1) j else Search_loop f i h)
      else Inr i)"
  by pat_completeness auto
termination
  by (relation "measure (\<lambda>(f, i, j). j - i)") auto

declare Search_loop.simps [simp del]

definition Search :: "int \<Rightarrow> (nat \<Rightarrow> error + bool) \<Rightarrow> error + int" where
  "Search n f = (case Search_loop f 0 (nat n) of Inl e \<Rightarrow> Inl e | Inr i \<Rightarrow> Inr (int i))"

text \<open>The index expression \<^verbatim>\<open>m.points[i]\<close> of the callbacks.\<close>

definition point_at :: "'a DataPoint list \<Rightarrow> nat \<Rightarrow> error + 'a DataPoint" where
  "point_at ps i = (if i < length ps then Inr (ps ! i) else Inl IndexOutOfRange)"

text \<open>
  The slice expression \<^verbatim>\<open>s[lo:hi]\<close>: Go panics unless \<open>0 \<le> lo \<le> hi \<le> cap(s)\<close>.
  The model checks \<open>hi\<close> against the length; the two bounds differ only for
  \<open>hi\<close> beyond the length, which \<^verbatim>\<open>selectPoints\<close> computes only when \<^verbatim>\<open>size\<close>
  exceeds the length of \<^verbatim>\<open>points\<close>.
\<close>

definition slice :: "'a list \<Rightarrow> int \<Rightarrow> int \<Rightarrow> error + 'a list" where
  "slice xs lo hi =
     (if 0 \<le> lo \<and> lo \<le> hi \<and> hi \<le> int (length xs)
      then Inr (take (nat hi - nat lo) (drop (nat lo) xs))
      else Inl SliceBoundsOutOfRange)"

text \<open>\<^verbatim>\<open>selectPoints(start, end)\<close>; the parameter \<^verbatim>\<open>end\<close> is called \<open>end'\<close>.\<close>

definition selectPoints :: "'a memoryMetric \<Rightarrow> int \<Rightarrow> int \<Rightarrow> error + 'a DataPoint list" where
  "selectPoints m start end' =
     (let size = msize m;
          minTimestamp = minTimestamp m;
          maxTimestamp = maxTimestamp m
      in
      if end' \<le> minTimestamp then Inr []
      else
        case (if start \<le> minTimestamp then Inr 0
              else Search size
                     (\<lambda>i. case point_at (points m) i of
                             Inl e \<Rightarrow> Inl e
                           | Inr p \<Rightarrow> Inr (Timestamp p \<ge> start))) of
          Inl e \<Rightarrow> Inl e
        | Inr startIdx \<Rightarrow>
            (case (if end' \<ge> maxTimestamp then Inr size
                   else Search size
                          (\<lambda>i. case point_at (points m) i of
                                  Inl e \<Rightarrow> Inl e
                                | Inr p \<Rightarrow> Inr (Timestamp p \<ge> end'))) of
               Inl e \<Rightarrow> Inl e
             | Inr endIdx \<Rightarrow> slice (points m) startIdx endIdx))"

text \<open>
  \<^verbatim>\<open>encodeAllPoints\<close>. The encoder is an interface value with its own state: it is a
  function from the encoder's state and a point to the error (if any) and the new state.
  To speak of the calls the model keeps, beside the encoder's state, the list of the points
  passed to \<^verbatim>\<open>encodePoint\<close> so far.

  \<^verbatim>\<open>sort.Slice\<close> belongs to the Go standard library and is not stable; it is the
  parameter \<open>srt\<close>, of which only the library's contract is assumed where needed
  (the result is a permutation of the argument, ascending by timestamp).
\<close>

type_synonym ('a, 'e) seriesEncoder = "'e \<Rightarrow> 'a DataPoint \<Rightarrow> string option \<times> 'e"

definition encodePoint ::
  "('a, 'e) seriesEncoder \<Rightarrow> 'a DataPoint list \<times> 'e \<Rightarrow> 'a DataPoint
     \<Rightarrow> string option \<times> ('a DataPoint list \<times> 'e)" where
  "encodePoint enc st p = (case enc (snd st) p of (err, e') \<Rightarrow> (err, (fst st @ [p], e')))"

text \<open>
  The first loop, over both slices; the cursors \<^verbatim>\<open>oi\<close> and \<^verbatim>\<open>pi\<close> are the
  remaining suffixes. It ends with an error, or with the suffixes left when one is empty.
\<close>

fun encode_both ::
  "('a, 'e) seriesEncoder \<Rightarrow> 'a DataPoint list \<Rightarrow> 'a DataPoint list \<Rightarrow> 'a DataPoint list \<times> 'e
     \<Rightarrow> (string + 'a DataPoint list \<times> 'a DataPoint list) \<times> ('a DataPoint list \<times> 'e)" where
  "encode_both enc (q # qs) (p # ps) st =
     (if Timestamp q < Timestamp p then
        (case encodePoint enc st q of
           (Some err, st') \<Rightarrow> (Inl err, st')
         | (None, st') \<Rightarrow> encode_both enc qs (p # ps) st')
      else
        (case encodePoint enc st p of
           (Some err, st') \<Rightarrow> (Inl err, st')
         | (None, st') \<Rightarrow> encode_both enc (q # qs) ps st'))"
| "encode_both enc [] ps st = (Inr ([], ps), st)"
| "encode_both enc (q # qs) [] st = (Inr (q # qs, []), st)"

text \<open>The second and the third loop: the rest of one slice.\<close>

fun encode_rest ::
  "('a, 'e) seriesEncoder \<Rightarrow> 'a DataPoint list \<Rightarrow> 'a DataPoint list \<times> 'e
     \<Rightarrow> string option \<times> ('a DataPoint list \<times> 'e)" where
  "encode_rest enc [] st = (None, st)"
| "encode_rest enc (p # ps) st =
     (case encodePoint enc st p of
        (Some err, st') \<Rightarrow> (Some err, st')
      | (None, st') \<Rightarrow> encode_rest enc ps st')"

text \<open>
  The result is the returned error, the series (whose \<^verbatim>\<open>outOfOrderPoints\<close> the sort has
  reordered in place), the points passed to \<^verbatim>\<open>encodePoint\<close> in call order, and the
  encoder's state.
\<close>

definition encodeAllPoints ::
  "('a DataPoint list \<Rightarrow> 'a DataPoint list) \<Rightarrow> ('a, 'e) seriesEncoder \<Rightarrow> 'a memoryMetric \<Rightarrow> 'e
     \<Rightarrow> error option \<times> 'a memoryMetric \<times> 'a DataPoint list \<times> 'e" where
  "encodeAllPoints srt enc m e =
     (let m' = m\<lparr>outOfOrderPoints := srt (outOfOrderPoints m)\<rparr> in
      case encode_both enc (outOfOrderPoints m') (points m') ([], e) of
        (Inl err, (calls, e')) \<Rightarrow> (Some (EncodeFailed err), m', calls, e')
      | (Inr (qs, ps), st) \<Rightarrow>
          (case encode_rest enc qs st of
             (Some err, (calls, e')) \<Rightarrow> (Some (EncodeFailed err), m', calls, e')
           | (None, st') \<Rightarrow>
               (case encode_rest enc ps st' of
                  (Some err, (calls, e')) \<Rightarrow> (Some (EncodeFailed err), m', calls, e')
                | (None, (calls, e')) \<Rightarrow> (None, m', calls, e'))))"

text \<open>The contract of \<^verbatim>\<open>sort.Slice\<close> with the comparison by timestamp.\<close>

definition sorts_by_timestamp :: "('a DataPoint list \<Rightarrow> 'a DataPoint list) \<Rightarrow> bool" where
  "sorts_by_timestamp srt \<longleftrightarrow>
     (\<forall>xs. mset (srt xs) = mset xs \<and> sorted (map Timestamp (srt xs)))"

text \<open>
  The test double \<^verbatim>\<open>fakeEncoder\<close>: \<^verbatim>\<open>encodePoint\<close> returns nil when
  \<^verbatim>\<open>encodePointFunc\<close> is nil and the function's result otherwise. \<open>some_error\<close> is the
  function of \<^verbatim>\<open>Test_memoryMetric_EncodeAllPoints_error\<close>.
\<close>

definition fakeEncoder :: "('a DataPoint \<Rightarrow> string option) option \<Rightarrow> ('a, unit) seriesEncoder" where
  "fakeEncoder encodePointFunc e p =
     (case encodePointFunc of None \<Rightarrow> (None, e) | Some f \<Rightarrow> (f p, e))"

definition some_error :: "'a DataPoint \<Rightarrow> string option" where
  "some_error p = Some ''some error''"

section \<open>memoryPartition\<close>

text \<open>
  The struct \<^verbatim>\<open>memoryPartition\<close>: \<^verbatim>\<open>metrics\<close> (a \<^verbatim>\<open>sync.Map\<close> from the marshalled
  metric name to a pointer to the series) is a map to series values, since a series is
  reachable through this map only; \<^verbatim>\<open>once\<close> (a \<^verbatim>\<open>sync.Once\<close>) is the flag that says
  whether it has fired. The fields \<^verbatim>\<open>partitionDuration\<close> and
  \<^verbatim>\<open>timestampPrecision\<close> are read by \<^verbatim>\<open>active\<close> and \<^verbatim>\<open>toUnix\<close> only and are left
  out. What the environment answers during one call is a parameter of that call:
  \<^item> \<open>wal_append\<close> is the result of \<^verbatim>\<open>m.wal.append(operationInsert, rows)\<close>
    (\<open>None\<close> for nil);
  \<^item> \<open>now k\<close> is the value of \<^verbatim>\<open>toUnix(time.Now(), m.timestampPrecision)\<close> at its
    \<open>k\<close>-th evaluation within the call;
  \<^item> \<open>mmn\<close> is \<^verbatim>\<open>marshalMetricName\<close>, whose definition is missing from the source
    files; nothing is assumed of it.
\<close>

record 'a memoryPartition =
  numPoints :: int
  minT :: int
  maxT :: int
  metrics :: "string \<rightharpoonup> 'a memoryMetric"
  once :: bool

definition newMemoryPartition :: "'a memoryPartition" where
  "newMemoryPartition = \<lparr>numPoints = 0, minT = 0, maxT = 0, metrics = Map.empty, once = False\<rparr>"

text \<open>
  \<^verbatim>\<open>getMetric\<close> returns the series stored under the name and stores a fresh one first
  when there is none.
\<close>

definition getMetric :: "'a memoryPartition \<Rightarrow> string \<Rightarrow> 'a memoryMetric \<times> 'a memoryPartition" where
  "getMetric m nm =
     (case metrics m nm of
        Some v \<Rightarrow> (v, m)
      | None \<Rightarrow>
          (let v = \<lparr>name = nm, msize = 0, minTimestamp = 0, maxTimestamp = 0,
                    points = [], outOfOrderPoints = []\<rparr>
           in (v, m\<lparr>metrics := (metrics m)(nm \<mapsto> v)\<rparr>)))"

text \<open>The body of \<^verbatim>\<open>m.once.Do\<close>: the least timestamp of the batch.\<close>

fun min_loop :: "'a Row list \<Rightarrow> int \<Rightarrow> int" where
  "min_loop [] mn = mn"
| "min_loop (row # rows) mn =
     min_loop rows (if Timestamp row < mn then Timestamp row else mn)"

text \<open>
  The local variables of the main loop of \<^verbatim>\<open>insertRows\<close>, with the partition (whose
  \<^verbatim>\<open>metrics\<close> the loop changes) and the number of clock readings taken so far.
\<close>

record 'a loop_state =
  part :: "'a memoryPartition"
  outdatedRows :: "'a Row list"
  maxTs :: int
  rowsNum :: int
  nowCalls :: nat

fun insertRows_loop ::
  "(string \<Rightarrow> Label list \<Rightarrow> string) \<Rightarrow> (nat \<Rightarrow> int) \<Rightarrow> 'a Row list \<Rightarrow> 'a loop_state
     \<Rightarrow> error option \<times> 'a loop_state" where
  "insertRows_loop mmn now [] st = (None, st)"
| "insertRows_loop mmn now (row # rows) st =
     (if Timestamp row < minT (part st) then
        insertRows_loop mmn now rows (st\<lparr>outdatedRows := outdatedRows st @ [row]\<rparr>)
      else
        (let subst = (Timestamp row = 0);
             row1 = (if subst then row\<lparr>Timestamp := now (nowCalls st)\<rparr> else row);
             maxTimestamp = (if Timestamp row1 > maxTs st then Timestamp row1 else maxTs st);
             nm = mmn (Metric row1) (Labels row1);
             (mt, p1) = getMetric (part st) nm
         in case insertPoint mt (DataPoint.truncate row1) of
              Inl e \<Rightarrow> (Some e, st\<lparr>part := p1\<rparr>)
            | Inr mt' \<Rightarrow>
                insertRows_loop mmn now rows
                  (st\<lparr>part := p1\<lparr>metrics := (metrics p1)(nm \<mapsto> mt')\<rparr>,
                      maxTs := maxTimestamp,
                      rowsNum := rowsNum st + 1,
                      nowCalls := (if subst then nowCalls st + 1 else nowCalls st)\<rparr>)))"

text \<open>
  \<^verbatim>\<open>insertRows\<close>. The result is the pair of Go's return values (an error, or the outdated
  rows with a nil error) and the partition after the call. A panic of \<^verbatim>\<open>insertPoint\<close>
  ends the call with the partition as it is at that moment.
\<close>

definition insertRows ::
  "(string \<Rightarrow> Label list \<Rightarrow> string) \<Rightarrow> (nat \<Rightarrow> int) \<Rightarrow> string option \<Rightarrow> 'a memoryPartition
     \<Rightarrow> 'a Row list \<Rightarrow> (error + 'a Row list) \<times> 'a memoryPartition" where
  "insertRows mmn now wal_append m rows =
     (if length rows = 0 then (Inl NoRowsGiven, m)
      else
        case wal_append of
          Some err \<Rightarrow> (Inl (WalWriteFailed err), m)
        | None \<Rightarrow>
            (let m1 = (if once m then m
                       else m\<lparr>minT := min_loop rows (Timestamp (rows ! 0)), once := True\<rparr>)
             in case insertRows_loop mmn now rows
                       \<lparr>part = m1, outdatedRows = [], maxTs = Timestamp (rows ! 0),
                        rowsNum = 0, nowCalls = 0\<rparr> of
                  (Some e, st) \<Rightarrow> (Inl e, part st)
                | (None, st) \<Rightarrow>
                    (let m2 = (part st)\<lparr>numPoints := numPoints (part st) + rowsNum st\<rparr>;
                         m3 = (if maxT m2 < maxTs st then m2\<lparr>maxT := maxTs st\<rparr> else m2)
                     in (Inr (outdatedRows st), m3))))"

text \<open>
  \<^verbatim>\<open>selectDataPoints\<close>. Go's error result is always nil; \<open>Inl\<close> stands for a panic of
  \<^verbatim>\<open>selectPoints\<close>.
\<close>

definition selectDataPoints ::
  "(string \<Rightarrow> Label list \<Rightarrow> string) \<Rightarrow> 'a memoryPartition \<Rightarrow> string \<Rightarrow> Label list \<Rightarrow> int \<Rightarrow> int
     \<Rightarrow> (error + 'a DataPoint list) \<times> 'a memoryPartition" where
  "selectDataPoints mmn m metric labels start end' =
     (let nm = mmn metric labels;
          (mt, m') = getMetric m nm
      in (selectPoints mt start end', m'))"

text \<open>The methods \<^verbatim>\<open>minTimestamp\<close>, \<^verbatim>\<open>maxTimestamp\<close> and \<^verbatim>\<open>size\<close> of the partition.\<close>

definition mp_minTimestamp :: "'a memoryPartition \<Rightarrow> int" where
  "mp_minTimestamp m = minT m"

definition mp_maxTimestamp :: "'a memoryPartition \<Rightarrow> int" where
  "mp_maxTimestamp m = maxT m"

definition mp_size :: "'a memoryPartition \<Rightarrow> int" where
  "mp_size m = numPoints m"

text \<open>
  The partitions the code can build: a new one, and what \<^verbatim>\<open>insertRows\<close> and
  \<^verbatim>\<open>selectDataPoints\<close> leave, whatever the arguments, the WAL and the clock.
\<close>

inductive reachable :: "(string \<Rightarrow> Label list \<Rightarrow> string) \<Rightarrow> 'a memoryPartition \<Rightarrow> bool"
  for mmn :: "string \<Rightarrow> Label list \<Rightarrow> string" where
  reachable_new: "reachable mmn newMemoryPartition"
| reachable_insertRows:
    "reachable mmn m \<Longrightarrow> reachable mmn (snd (insertRows mmn now wal_append m rows))"
| reachable_selectDataPoints:
    "reachable mmn m \<Longrightarrow> reachable mmn (snd (selectDataPoints mmn m metric labels start end'))"

text \<open>
  The invariant of a partition: every stored series satisfies the series invariant,
  \<^verbatim>\<open>maxT\<close> is not negative, and once \<^verbatim>\<open>minT\<close> is set it is at most \<^verbatim>\<open>maxT\<close>.
\<close>

definition all_series_inv :: "'a memoryPartition \<Rightarrow> bool" where
  "all_series_inv m \<longleftrightarrow> (\<forall>nm mt. metrics m nm = Some mt \<longrightarrow> series_inv mt)"

definition partition_inv :: "'a memoryPartition \<Rightarrow> bool" where
  "partition_inv m \<longleftrightarrow>
     all_series_inv m \<and> 0 \<le> maxT m \<and> (once m \<longrightarrow> minT m \<le> maxT m)"

text \<open>
  A sequence of \<^verbatim>\<open>insertRows\<close> calls on one partition; each call comes with its batch,
  the result of its WAL append and its clock.
\<close>

record 'a insert_call =
  call_rows :: "'a Row list"
  call_wal :: "string option"
  call_now :: "nat \<Rightarrow> int"

fun insertRows_calls ::
  "(string \<Rightarrow> Label list \<Rightarrow> string) \<Rightarrow> 'a memoryPartition \<Rightarrow> 'a insert_call list
     \<Rightarrow> 'a memoryPartition" where
  "insertRows_calls mmn m [] = m"
| "insertRows_calls mmn m (c # cs) =
     insertRows_calls mmn (snd (insertRows mmn (call_now c) (call_wal c) m (call_rows c))) cs"

text \<open>
  For evaluations on concrete inputs: rows without labels keyed by their metric name
  (the results below hold for every function in the place of \<^verbatim>\<open>marshalMetricName\<close>),
  and a clock.
\<close>

definition metricNameOnly :: "string \<Rightarrow> Label list \<Rightarrow> string" where
  "metricNameOnly metric labels = metric"

definition clock0 :: "nat \<Rightarrow> int" where
  "clock0 k = 1600000000 + int k"

definition mkRow :: "string \<Rightarrow> int \<Rightarrow> unit Row" where
  "mkRow metric ts = \<lparr>Timestamp = ts, Value = (), Metric = metric, Labels = []\<rparr>"

section \<open>partitionList\<close>

text \<open>
  Modelled from the spec: the declaration of the interface \<^verbatim>\<open>partition\<close>, whose values
  the list holds, is missing from the source files. The spec lists its capabilities
  (\<^verbatim>\<open>insertRows\<close>, \<^verbatim>\<open>selectDataPoints\<close>, \<^verbatim>\<open>minTimestamp\<close>, \<^verbatim>\<open>maxTimestamp\<close>,
  \<^verbatim>\<open>size\<close>, \<^verbatim>\<open>active\<close>, \<^verbatim>\<open>clean\<close>, \<^verbatim>\<open>expired\<close>); the list calls two of them
  only, so a partition is given by what these return: \<^verbatim>\<open>minTimestamp()\<close>, and the error
  of \<^verbatim>\<open>clean()\<close> (\<open>None\<close> for nil). \<^verbatim>\<open>memoryPartition\<close> and \<^verbatim>\<open>fakePartition\<close>
  always return nil; the signature \<^verbatim>\<open>clean() error\<close> of both and the check of the result
  in \<^verbatim>\<open>remove\<close> allow an error, and the spec has the disk partition's \<^verbatim>\<open>clean()\<close>
  unmap and delete files.
\<close>

record partition =
  p_minTimestamp :: int
  p_clean :: "string option"

definition samePartitions :: "partition \<Rightarrow> partition \<Rightarrow> bool" where
  "samePartitions x y \<longleftrightarrow> p_minTimestamp x = p_minTimestamp y"

text \<open>
  Nodes are heap objects that the list, the nodes and the iterator share by pointer, so the
  model has an explicit store: a pointer \<^verbatim>\<open>*partitionNode\<close> is \<open>None\<close> (nil) or the
  address of a node, an address is an index of the store, and \<^verbatim>\<open>&partitionNode{...}\<close>
  appends a node to the store. Nothing is ever freed. The field \<^verbatim>\<open>next\<close> is called
  \<open>nxt\<close>. Beside the store and the struct \<^verbatim>\<open>partitionListImpl\<close> the state records
  the partitions on which \<^verbatim>\<open>clean()\<close> has been called, in call order.
\<close>

type_synonym ref = nat

record partitionNode =
  val :: partition
  nxt :: "ref option"

record partitionListImpl =
  numPartitions :: int
  head :: "ref option"
  tail :: "ref option"

record world =
  store :: "partitionNode list"
  lst :: partitionListImpl
  cleaned :: "partition list"

definition newPartitionList :: world where
  "newPartitionList =
     \<lparr>store = [], lst = \<lparr>numPartitions = 0, head = None, tail = None\<rparr>, cleaned = []\<rparr>"

definition size_impl :: "world \<Rightarrow> int" where
  "size_impl w = numPartitions (lst w)"

definition setHead :: "world \<Rightarrow> ref option \<Rightarrow> world" where
  "setHead w node = w\<lparr>lst := (lst w)\<lparr>head := node\<rparr>\<rparr>"

definition setTail :: "world \<Rightarrow> ref option \<Rightarrow> world" where
  "setTail w node = w\<lparr>lst := (lst w)\<lparr>tail := node\<rparr>\<rparr>"

definition setNext :: "world \<Rightarrow> ref \<Rightarrow> ref option \<Rightarrow> world" where
  "setNext w r node = w\<lparr>store := (store w)[r := (store w ! r)\<lparr>nxt := node\<rparr>]\<rparr>"

definition getNext :: "world \<Rightarrow> ref \<Rightarrow> ref option" where
  "getNext w r = nxt (store w ! r)"

definition node_value :: "world \<Rightarrow> ref \<Rightarrow> partition" where
  "node_value w r = val (store w ! r)"

definition add_numPartitions :: "world \<Rightarrow> int \<Rightarrow> world" where
  "add_numPartitions w d = w\<lparr>lst := (lst w)\<lparr>numPartitions := numPartitions (lst w) + d\<rparr>\<rparr>"

text \<open>\<^verbatim>\<open>&partitionNode{...}\<close>: the address of the new node and the state with it.\<close>

definition new_node :: "world \<Rightarrow> partitionNode \<Rightarrow> ref \<times> world" where
  "new_node w n = (length (store w), w\<lparr>store := store w @ [n]\<rparr>)"

text \<open>\<^verbatim>\<open>insert\<close>.\<close>

definition insert_partition :: "world \<Rightarrow> partition \<Rightarrow> world" where
  "insert_partition w p =
     (let (node, w1) = new_node w \<lparr>val = p, nxt = None\<rparr>;
          hd = head (lst w1);
          w2 = (if hd \<noteq> None then setNext w1 node hd else w1);
          w3 = setHead w2 (Some node)
      in add_numPartitions w3 1)"

text \<open>
  The iterator. \<^verbatim>\<open>newIterator\<close> makes a dummy node whose \<^verbatim>\<open>next\<close> is the head; no
  pointer to the dummy leaves the iterator, so it is kept in the iterator's state instead of
  the store: \<^verbatim>\<open>current\<close> is the dummy (with its \<^verbatim>\<open>next\<close>), or a pointer.
  \<open>iter_next\<close> is the node \<^verbatim>\<open>next()\<close> moves to: \<^verbatim>\<open>next()\<close> sets \<^verbatim>\<open>current\<close> to it
  and returns whether it is not nil.
\<close>

datatype cursor = Dummy "ref option" | At "ref option"

definition newIterator :: "world \<Rightarrow> cursor" where
  "newIterator w = Dummy (head (lst w))"

fun iter_next :: "world \<Rightarrow> cursor \<Rightarrow> ref option" where
  "iter_next w (Dummy n) = n"
| "iter_next w (At None) = None"
| "iter_next w (At (Some r)) = getNext w r"

text \<open>
  The part of \<^verbatim>\<open>remove\<close> that runs when the current node matches: unlink it, decrement
  the counter, call \<^verbatim>\<open>clean()\<close> on its partition and return.
\<close>

definition remove_current :: "world \<Rightarrow> ref option \<Rightarrow> ref \<Rightarrow> error option \<times> world" where
  "remove_current w prev current =
     (let next = iter_next w (At (Some current));
          w1 = (case prev of
                  None \<Rightarrow> setHead w next
                | Some pr \<Rightarrow>
                    (case next of
                       None \<Rightarrow> setTail (setNext w pr None) (Some pr)
                     | Some n \<Rightarrow> setNext w pr next));
          w2 = add_numPartitions w1 (- 1);
          p = node_value w2 current;
          w3 = w2\<lparr>cleaned := cleaned w2 @ [p]\<rparr>
      in case p_clean p of
           Some err \<Rightarrow> (Some (CleanFailed err), w3)
         | None \<Rightarrow> (None, w3))"

text \<open>
  The loop of \<^verbatim>\<open>remove\<close>. It follows \<^verbatim>\<open>next\<close> pointers until nil, so on a cyclic
  store it need not end: the result is an option, \<open>None\<close> for a run that does not return.
\<close>

partial_function (option) remove_loop ::
  "partition \<Rightarrow> ref option \<Rightarrow> cursor \<Rightarrow> world \<Rightarrow> (error option \<times> world) option" where
  "remove_loop target prev it w =
     (case iter_next w it of
        None \<Rightarrow> Some (Some PartitionNotFound, w)
      | Some current \<Rightarrow>
          if \<not> samePartitions (node_value w current) target
          then remove_loop target (Some current) (At (Some current)) w
          else Some (remove_current w prev current))"

declare remove_loop.simps [code]

definition remove_partition :: "world \<Rightarrow> partition \<Rightarrow> (error option \<times> world) option" where
  "remove_partition w target =
     (if size_impl w \<le> 0 then Some (Some EmptyPartition, w)
      else remove_loop target None (newIterator w) w)"

text \<open>\<^verbatim>\<open>swap\<close>, in the same way.\<close>

definition swap_current :: "world \<Rightarrow> partition \<Rightarrow> ref option \<Rightarrow> ref \<Rightarrow> error option \<times> world" where
  "swap_current w new prev current =
     (let (newNode, w1) = new_node w \<lparr>val = new, nxt = getNext w current\<rparr>;
          next = iter_next w1 (At (Some current));
          w2 = (case prev of
                  None \<Rightarrow> setHead w1 (Some newNode)
                | Some pr \<Rightarrow>
                    (case next of
                       None \<Rightarrow> setTail (setNext w1 pr (Some newNode)) (Some newNode)
                     | Some n \<Rightarrow> setNext w1 pr (Some newNode)))
      in (None, w2))"

partial_function (option) swap_loop ::
  "partition \<Rightarrow> partition \<Rightarrow> ref option \<Rightarrow> cursor \<Rightarrow> world \<Rightarrow> (error option \<times> world) option" where
  "swap_loop old new prev it w =
     (case iter_next w it of
        None \<Rightarrow> Some (Some PartitionNotFound, w)
      | Some current \<Rightarrow>
          if \<not> samePartitions (node_value w current) old
          then swap_loop old new (Some current) (At (Some current)) w
          else Some (swap_current w new prev current))"

declare swap_loop.simps [code]

definition swap_partition :: "world \<Rightarrow> partition \<Rightarrow> partition \<Rightarrow> (error option \<times> world) option" where
  "swap_partition w old new =
     (if size_impl w \<le> 0 then Some (Some EmptyPartition, w)
      else swap_loop old new None (newIterator w) w)"

text \<open>
  The nodes reachable from a pointer by following \<^verbatim>\<open>next\<close>: \<open>path h p rs q\<close> says that
  from \<open>p\<close> the addresses \<open>rs\<close> are visited in this order and \<open>q\<close> comes next;
  \<open>chain h p rs\<close> that the walk ends at nil.
\<close>

fun path :: "partitionNode list \<Rightarrow> ref option \<Rightarrow> ref list \<Rightarrow> ref option \<Rightarrow> bool" where
  "path h p [] q \<longleftrightarrow> p = q"
| "path h p (r # rs) q \<longleftrightarrow> p = Some r \<and> r < length h \<and> path h (nxt (h ! r)) rs q"

definition chain :: "partitionNode list \<Rightarrow> ref option \<Rightarrow> ref list \<Rightarrow> bool" where
  "chain h p rs \<longleftrightarrow> path h p rs None"

text \<open>
  A well-formed list with the nodes \<open>rs\<close>: they are the nodes reachable from
  \<^verbatim>\<open>head\<close>, and \<^verbatim>\<open>numPartitions\<close> is their number. Nothing is said about \<^verbatim>\<open>tail\<close>.
\<close>

definition list_nodes :: "world \<Rightarrow> ref list \<Rightarrow> bool" where
  "list_nodes w rs \<longleftrightarrow>
     chain (store w) (head (lst w)) rs \<and> numPartitions (lst w) = int (length rs)"

definition fakePartition :: "int \<Rightarrow> partition" where
  "fakePartition t = \<lparr>p_minTimestamp = t, p_clean = None\<rparr>"

text \<open>
  A sequence of list operations; the results of \<^verbatim>\<open>remove\<close> and \<^verbatim>\<open>swap\<close> are dropped,
  as only the list they leave matters here. \<open>None\<close> stands for an operation that
  does not return.
\<close>

datatype list_op = Insert partition | Remove partition | Swap partition partition

fun apply_op :: "world \<Rightarrow> list_op \<Rightarrow> world option" where
  "apply_op w (Insert p) = Some (insert_partition w p)"
| "apply_op w (Remove p) = map_option snd (remove_partition w p)"
| "apply_op w (Swap old new) = map_option snd (swap_partition w old new)"

fun apply_ops :: "world \<Rightarrow> list_op list \<Rightarrow> world option" where
  "apply_ops w [] = Some w"
| "apply_ops w (x # xs) = (case apply_op w x of None \<Rightarrow> None | Some w' \<Rightarrow> apply_ops w' xs)"

section \<open>Results on memoryMetric\<close>

lemma sorted_snoc_last:
  "xs \<noteq> [] \<Longrightarrow> sorted (map f xs) \<Longrightarrow> f (xs ! (length xs - 1)) \<le> f y
     \<Longrightarrow> sorted (map f (xs @ [y]))"
proof -
  assume ne: "xs \<noteq> []" and s: "sorted (map f xs)" and le: "f (xs ! (length xs - 1)) \<le> f y"
  have "\<forall>x \<in> set xs. f x \<le> f y"
  proof
    fix x assume "x \<in> set xs"
    then obtain i where i: "i < length xs" and x: "x = xs ! i"
      by (auto simp: in_set_conv_nth)
    have "map f xs ! i \<le> map f xs ! (length xs - 1)"
      using s i ne by (intro sorted_nth_mono) auto
    then show "f x \<le> f y" using le i x ne by simp
  qed
  then show ?thesis using s by (simp add: sorted_append)
qed

lemma sorted_less_snoc_last:
  assumes "xs \<noteq> []" and "sorted (map f xs)" and "sorted_wrt (<) (map f xs)"
    and "f (xs ! (length xs - 1)) < f y"
  shows "sorted_wrt (<) (map f (xs @ [y]))"
proof -
  have "\<forall>x \<in> set xs. f x < f y"
  proof
    fix x assume "x \<in> set xs"
    then obtain i where i: "i < length xs" and x: "x = xs ! i"
      by (auto simp: in_set_conv_nth)
    have "map f xs ! i \<le> map f xs ! (length xs - 1)"
      using assms(1,2) i by (intro sorted_nth_mono) auto
    then show "f x < f y" using assms(1,4) i x by simp
  qed
  then show ?thesis using assms(3) by (simp add: sorted_wrt_append)
qed

text \<open>
  Claim C6. A call of \<^verbatim>\<open>insertPoint\<close> on a series that satisfies the invariant returns
  (it does not panic) and the series satisfies the invariant again: \<^verbatim>\<open>points\<close> is
  ascending (and strictly ascending if it was), \<^verbatim>\<open>minTimestamp\<close> is the timestamp of
  \<^verbatim>\<open>points[0]\<close> and \<^verbatim>\<open>maxTimestamp\<close> the one of \<^verbatim>\<open>points[size-1]\<close>. A point
  whose timestamp is not strictly greater than the timestamp of the last in-order point is
  appended to \<^verbatim>\<open>outOfOrderPoints\<close>, and \<^verbatim>\<open>points\<close>, \<^verbatim>\<open>size\<close>,
  \<^verbatim>\<open>minTimestamp\<close> and \<^verbatim>\<open>maxTimestamp\<close> stay as they were.
\<close>

theorem insertPoint_preserves_series_inv:
  assumes "series_inv m"
  shows "\<exists>m'. insertPoint m p = Inr m' \<and> series_inv m' \<and>
           (sorted_wrt (<) (map Timestamp (points m)) \<longrightarrow>
              sorted_wrt (<) (map Timestamp (points m'))) \<and>
           (points m \<noteq> [] \<and> \<not> Timestamp (points m ! (length (points m) - 1)) < Timestamp p \<longrightarrow>
              outOfOrderPoints m' = outOfOrderPoints m @ [p] \<and>
              points m' = points m \<and> msize m' = msize m \<and>
              minTimestamp m' = minTimestamp m \<and> maxTimestamp m' = maxTimestamp m)"
proof (cases "points m = []")
  case True
  with assms have "msize m = 0" by (simp add: series_inv_def)
  then show ?thesis using True by (simp add: insertPoint_def series_inv_def)
next
  case False
  let ?n = "length (points m)"
  from assms have sz: "msize m = int ?n" and ws: "sorted (map Timestamp (points m))"
    by (simp_all add: series_inv_def)
  from False have pos: "0 < ?n" by simp
  have idx: "nat (msize m - 1) = ?n - 1" using sz pos by simp
  show ?thesis
  proof (cases "Timestamp (points m ! (?n - 1)) < Timestamp p")
    case True
    have eq: "insertPoint m p =
        Inr (m\<lparr>points := points m @ [p], maxTimestamp := Timestamp p, msize := msize m + 1\<rparr>)"
      using sz pos True idx by (simp add: insertPoint_def Let_def)
    have srt: "sorted (map Timestamp (points m @ [p]))"
      using assms False True by (intro sorted_snoc_last) (auto simp: series_inv_def)
    have strict: "sorted_wrt (<) (map Timestamp (points m)) \<longrightarrow>
                  sorted_wrt (<) (map Timestamp (points m @ [p]))"
      using sorted_less_snoc_last [OF False ws _ True] by blast
    have "series_inv (m\<lparr>points := points m @ [p], maxTimestamp := Timestamp p, msize := msize m + 1\<rparr>)"
      using assms False srt by (simp add: series_inv_def nth_append)
    then show ?thesis using eq True strict by simp
  next
    case nlt: False
    have eq: "insertPoint m p = Inr (m\<lparr>outOfOrderPoints := outOfOrderPoints m @ [p]\<rparr>)"
      using sz pos nlt idx by (simp add: insertPoint_def Let_def)
    have "series_inv (m\<lparr>outOfOrderPoints := outOfOrderPoints m @ [p]\<rparr>)"
      using assms by (simp add: series_inv_def)
    then show ?thesis using eq by simp
  qed
qed

theorem insertPoint_preserves_series_inv_witness:
  "series_inv \<lparr>name = ''m1'', msize = 1, minTimestamp = 2, maxTimestamp = 2,
       points = [\<lparr>Timestamp = 2, Value = ()\<rparr>], outOfOrderPoints = []\<rparr> \<and>
   (\<exists>m'. insertPoint \<lparr>name = ''m1'', msize = 1, minTimestamp = 2, maxTimestamp = 2,
            points = [\<lparr>Timestamp = 2, Value = ()\<rparr>], outOfOrderPoints = []\<rparr>
            \<lparr>Timestamp = 1, Value = ()\<rparr> = Inr m' \<and>
         series_inv m' \<and>
         outOfOrderPoints m' = [\<lparr>Timestamp = 1, Value = ()\<rparr>] \<and>
         points m' = [\<lparr>Timestamp = 2, Value = ()\<rparr>] \<and> msize m' = 1 \<and>
         minTimestamp m' = 2 \<and> maxTimestamp m' = 2)"
proof -
  have inv: "series_inv \<lparr>name = ''m1'', msize = 1, minTimestamp = 2, maxTimestamp = 2,
       points = [\<lparr>Timestamp = 2, Value = ()\<rparr>], outOfOrderPoints = []\<rparr>"
    by (simp add: series_inv_def)
  show ?thesis
    using inv insertPoint_preserves_series_inv [OF inv, of "\<lparr>Timestamp = 1, Value = ()\<rparr>"]
    by auto
qed

lemma encodePoint_ok:
  "(\<And>e p. fst (enc e p) = None) \<Longrightarrow>
     encodePoint enc st p = (None, (fst st @ [p], snd (enc (snd st) p)))"
proof -
  assume nf: "\<And>e p. fst (enc e p) = None"
  obtain err e' where eq: "enc (snd st) p = (err, e')" by (cases "enc (snd st) p")
  with nf [of "snd st" p] have "err = None" by simp
  with eq show ?thesis by (simp add: encodePoint_def)
qed

lemma encode_rest_ok:
  "(\<And>e p. fst (enc e p) = None) \<Longrightarrow>
     \<exists>e'. encode_rest enc ps st = (None, (fst st @ ps, e'))"
proof (induction ps arbitrary: st)
  case Nil
  show ?case by (cases st) simp
next
  case (Cons p ps)
  have ep: "encodePoint enc st p = (None, (fst st @ [p], snd (enc (snd st) p)))"
    using Cons.prems by (rule encodePoint_ok)
  from Cons.IH [OF Cons.prems, where st = "(fst st @ [p], snd (enc (snd st) p))"]
  obtain e' where "encode_rest enc ps (fst st @ [p], snd (enc (snd st) p)) = (None, ((fst st @ [p]) @ ps, e'))"
    by auto
  with ep show ?case by simp
qed

lemma encode_both_ok:
  "(\<And>e p. fst (enc e p) = None) \<Longrightarrow>
   sorted (map Timestamp qs) \<Longrightarrow> sorted (map Timestamp ps) \<Longrightarrow>
     \<exists>xs qs' ps' e'.
        encode_both enc qs ps st = (Inr (qs', ps'), (fst st @ xs, e')) \<and>
        (qs' = [] \<or> ps' = []) \<and>
        mset (xs @ qs' @ ps') = mset ps + mset qs \<and>
        sorted (map Timestamp (xs @ qs' @ ps')) \<and>
        (\<forall>t. filter (\<lambda>x. Timestamp x = t) (xs @ qs' @ ps') =
               filter (\<lambda>x. Timestamp x = t) ps @ filter (\<lambda>x. Timestamp x = t) qs)"
proof (induction enc qs ps st rule: encode_both.induct)
  case (1 enc q qs p ps st)
  note nf = "1.prems"(1)
  from "1.prems"(2) have sq: "sorted (map Timestamp qs)" and qle: "\<forall>x\<in>set qs. Timestamp q \<le> Timestamp x"
    by auto
  from "1.prems"(3) have sp: "sorted (map Timestamp ps)" and ple: "\<forall>x\<in>set ps. Timestamp p \<le> Timestamp x"
    by auto
  show ?case
  proof (cases "Timestamp q < Timestamp p")
    case True
    let ?st = "(fst st @ [q], snd (enc (snd st) q))"
    have ep: "encodePoint enc st q = (None, ?st)" using nf by (rule encodePoint_ok)
    from "1.IH"(1) [OF True ep [symmetric] refl nf sq "1.prems"(3)]
    obtain xs qs' ps' e' where
      eb: "encode_both enc qs (p # ps) ?st = (Inr (qs', ps'), (fst ?st @ xs, e'))" and
      em: "qs' = [] \<or> ps' = []" and
      ms: "mset (xs @ qs' @ ps') = mset (p # ps) + mset qs" and
      so: "sorted (map Timestamp (xs @ qs' @ ps'))" and
      fl: "\<forall>t. filter (\<lambda>x. Timestamp x = t) (xs @ qs' @ ps') =
               filter (\<lambda>x. Timestamp x = t) (p # ps) @ filter (\<lambda>x. Timestamp x = t) qs"
      by blast
    have "set_mset (mset (xs @ qs' @ ps')) = set_mset (mset (p # ps) + mset qs)"
      by (simp only: ms)
    then have st: "set (xs @ qs' @ ps') = set (p # ps) \<union> set qs"
      by simp
    have a: "encode_both enc (q # qs) (p # ps) st = (Inr (qs', ps'), (fst st @ (q # xs), e'))"
      using True ep eb by simp
    have b: "mset ((q # xs) @ qs' @ ps') = mset (p # ps) + mset (q # qs)"
      using ms by simp
    have "\<forall>x\<in>set (xs @ qs' @ ps'). Timestamp q \<le> Timestamp x"
      unfolding st using qle ple True by auto
    then have c: "sorted (map Timestamp ((q # xs) @ qs' @ ps'))"
      using so by auto
    have nop: "filter (\<lambda>x. Timestamp x = Timestamp q) (p # ps) = []"
      using ple True by (auto simp: filter_empty_conv)
    have d: "\<forall>t. filter (\<lambda>x. Timestamp x = t) ((q # xs) @ qs' @ ps') =
               filter (\<lambda>x. Timestamp x = t) (p # ps) @ filter (\<lambda>x. Timestamp x = t) (q # qs)"
    proof
      fix t
      show "filter (\<lambda>x. Timestamp x = t) ((q # xs) @ qs' @ ps') =
               filter (\<lambda>x. Timestamp x = t) (p # ps) @ filter (\<lambda>x. Timestamp x = t) (q # qs)"
      proof (cases "Timestamp q = t")
        case True
        have "filter (\<lambda>x. Timestamp x = t) ((q # xs) @ qs' @ ps') =
                q # filter (\<lambda>x. Timestamp x = t) (xs @ qs' @ ps')"
          using True by simp
        also have "\<dots> = q # filter (\<lambda>x. Timestamp x = t) qs"
          using fl nop True by simp
        also have "\<dots> = filter (\<lambda>x. Timestamp x = t) (p # ps) @ filter (\<lambda>x. Timestamp x = t) (q # qs)"
          using nop True by simp
        finally show ?thesis .
      next
        case False
        then show ?thesis using fl by simp
      qed
    qed
    from a em b c d show ?thesis by blast
  next
    case False
    let ?st = "(fst st @ [p], snd (enc (snd st) p))"
    have ep: "encodePoint enc st p = (None, ?st)" using nf by (rule encodePoint_ok)
    from "1.IH"(2) [OF False ep [symmetric] refl nf "1.prems"(2) sp]
    obtain xs qs' ps' e' where
      eb: "encode_both enc (q # qs) ps ?st = (Inr (qs', ps'), (fst ?st @ xs, e'))" and
      em: "qs' = [] \<or> ps' = []" and
      ms: "mset (xs @ qs' @ ps') = mset ps + mset (q # qs)" and
      so: "sorted (map Timestamp (xs @ qs' @ ps'))" and
      fl: "\<forall>t. filter (\<lambda>x. Timestamp x = t) (xs @ qs' @ ps') =
               filter (\<lambda>x. Timestamp x = t) ps @ filter (\<lambda>x. Timestamp x = t) (q # qs)"
      by blast
    have "set_mset (mset (xs @ qs' @ ps')) = set_mset (mset ps + mset (q # qs))"
      by (simp only: ms)
    then have st: "set (xs @ qs' @ ps') = set ps \<union> set (q # qs)"
      by simp
    have a: "encode_both enc (q # qs) (p # ps) st = (Inr (qs', ps'), (fst st @ (p # xs), e'))"
      using False ep eb by simp
    have b: "mset ((p # xs) @ qs' @ ps') = mset (p # ps) + mset (q # qs)"
      using ms by simp
    have "\<forall>x\<in>set (xs @ qs' @ ps'). Timestamp p \<le> Timestamp x"
      unfolding st using qle ple False by auto
    then have c: "sorted (map Timestamp ((p # xs) @ qs' @ ps'))"
      using so by auto
    have d: "\<forall>t. filter (\<lambda>x. Timestamp x = t) ((p # xs) @ qs' @ ps') =
               filter (\<lambda>x. Timestamp x = t) (p # ps) @ filter (\<lambda>x. Timestamp x = t) (q # qs)"
      using fl by simp
    from a em b c d show ?thesis by blast
  qed
next
  case (2 enc ps st)
  have "encode_both enc [] ps st = (Inr ([], ps), (fst st @ [], snd st))" by simp
  with 2 show ?case by (intro exI [of _ "[]"] exI [of _ ps] exI [of _ "snd st"]) simp
next
  case (3 enc q qs st)
  have "encode_both enc (q # qs) [] st = (Inr (q # qs, []), (fst st @ [], snd st))" by simp
  with 3 show ?case by (intro exI [of _ "[]"] exI [of _ "q # qs"] exI [of _ "snd st"]) simp
qed

lemma sorts_by_timestamp_sort_key: "sorts_by_timestamp (sort_key Timestamp)"
  by (simp add: sorts_by_timestamp_def)

text \<open>
  Claim C3, as amended. For a series whose \<^verbatim>\<open>points\<close> are ascending by timestamp, any
  \<^verbatim>\<open>outOfOrderPoints\<close>, and an encoder whose \<^verbatim>\<open>encodePoint\<close> never returns an
  error, \<^verbatim>\<open>encodeAllPoints\<close> returns nil and has called \<^verbatim>\<open>encodePoint\<close> exactly once
  per point of \<^verbatim>\<open>points\<close> and \<^verbatim>\<open>outOfOrderPoints\<close> (as multisets), in ascending
  order of timestamp, and among the points of one timestamp the in-order points come first,
  followed by the out-of-order points.
\<close>

theorem encodeAllPoints_merges_in_order:
  assumes asc: "sorted (map Timestamp (points m))"
    and srt: "sorts_by_timestamp srt"
    and nf: "\<And>e p. fst (enc e p) = None"
  shows "\<exists>calls e'.
           encodeAllPoints srt enc m e =
             (None, m\<lparr>outOfOrderPoints := srt (outOfOrderPoints m)\<rparr>, calls, e') \<and>
           mset calls = mset (points m) + mset (outOfOrderPoints m) \<and>
           sorted (map Timestamp calls) \<and>
           (\<forall>t. filter (\<lambda>x. Timestamp x = t) calls =
                  filter (\<lambda>x. Timestamp x = t) (points m) @
                  filter (\<lambda>x. Timestamp x = t) (srt (outOfOrderPoints m)))"
proof -
  let ?qs = "srt (outOfOrderPoints m)"
  from srt have sq: "sorted (map Timestamp ?qs)" and mq: "mset ?qs = mset (outOfOrderPoints m)"
    by (simp_all add: sorts_by_timestamp_def)
  from encode_both_ok [where enc = enc and st = "([], e)", OF nf sq asc]
  obtain xs qs' ps' e1 where
    eb: "encode_both enc ?qs (points m) ([], e) = (Inr (qs', ps'), (xs, e1))" and
    ms: "mset (xs @ qs' @ ps') = mset (points m) + mset ?qs" and
    so: "sorted (map Timestamp (xs @ qs' @ ps'))" and
    fl: "\<forall>t. filter (\<lambda>x. Timestamp x = t) (xs @ qs' @ ps') =
           filter (\<lambda>x. Timestamp x = t) (points m) @ filter (\<lambda>x. Timestamp x = t) ?qs"
    by auto
  from encode_rest_ok [where enc = enc and ps = qs' and st = "(xs, e1)", OF nf]
  obtain e2 where r1: "encode_rest enc qs' (xs, e1) = (None, (xs @ qs', e2))" by auto
  from encode_rest_ok [where enc = enc and ps = ps' and st = "(xs @ qs', e2)", OF nf]
  obtain e3 where r2: "encode_rest enc ps' (xs @ qs', e2) = (None, (xs @ qs' @ ps', e3))" by auto
  have "encodeAllPoints srt enc m e =
          (None, m\<lparr>outOfOrderPoints := ?qs\<rparr>, xs @ qs' @ ps', e3)"
    using eb r1 r2 by (simp add: encodeAllPoints_def)
  moreover have "mset (xs @ qs' @ ps') = mset (points m) + mset (outOfOrderPoints m)"
    using ms mq by simp
  ultimately show ?thesis using so fl by blast
qed

theorem encodeAllPoints_merges_in_order_witness:
  "sorted (map Timestamp (points
      \<lparr>name = ''m1'', msize = 2, minTimestamp = 1, maxTimestamp = 3,
       points = [\<lparr>Timestamp = 1, Value = ()\<rparr>, \<lparr>Timestamp = 3, Value = ()\<rparr>],
       outOfOrderPoints = [\<lparr>Timestamp = 4, Value = ()\<rparr>, \<lparr>Timestamp = 2, Value = ()\<rparr>]\<rparr>)) \<and>
   sorts_by_timestamp (sort_key Timestamp :: unit DataPoint list \<Rightarrow> unit DataPoint list) \<and>
   fst (fakeEncoder None () \<lparr>Timestamp = 1, Value = ()\<rparr>) = None \<and>
   fst (encodeAllPoints (sort_key Timestamp) (fakeEncoder None)
      \<lparr>name = ''m1'', msize = 2, minTimestamp = 1, maxTimestamp = 3,
       points = [\<lparr>Timestamp = 1, Value = ()\<rparr>, \<lparr>Timestamp = 3, Value = ()\<rparr>],
       outOfOrderPoints = [\<lparr>Timestamp = 4, Value = ()\<rparr>, \<lparr>Timestamp = 2, Value = ()\<rparr>]\<rparr> ()) = None \<and>
   fst (snd (snd (encodeAllPoints (sort_key Timestamp) (fakeEncoder None)
      \<lparr>name = ''m1'', msize = 2, minTimestamp = 1, maxTimestamp = 3,
       points = [\<lparr>Timestamp = 1, Value = ()\<rparr>, \<lparr>Timestamp = 3, Value = ()\<rparr>],
       outOfOrderPoints = [\<lparr>Timestamp = 4, Value = ()\<rparr>, \<lparr>Timestamp = 2, Value = ()\<rparr>]\<rparr> ()))) =
     [\<lparr>Timestamp = 1, Value = ()\<rparr>, \<lparr>Timestamp = 2, Value = ()\<rparr>,
      \<lparr>Timestamp = 3, Value = ()\<rparr>, \<lparr>Timestamp = 4, Value = ()\<rparr>]"
proof -
  let ?m = "\<lparr>name = ''m1'', msize = 2, minTimestamp = 1, maxTimestamp = 3,
       points = [\<lparr>Timestamp = 1, Value = ()\<rparr>, \<lparr>Timestamp = 3, Value = ()\<rparr>],
       outOfOrderPoints = [\<lparr>Timestamp = 4, Value = ()\<rparr>, \<lparr>Timestamp = 2, Value = ()\<rparr>]\<rparr>"
  have asc: "sorted (map Timestamp (points ?m))" by simp
  have nf: "\<And>e p. fst (fakeEncoder None e (p :: unit DataPoint)) = None"
    by (simp add: fakeEncoder_def)
  from encodeAllPoints_merges_in_order
    [where enc = "fakeEncoder None" and e = "()", OF asc sorts_by_timestamp_sort_key nf]
  obtain calls e' where
    eq: "encodeAllPoints (sort_key Timestamp) (fakeEncoder None) ?m () =
           (None, ?m\<lparr>outOfOrderPoints := sort_key Timestamp (outOfOrderPoints ?m)\<rparr>, calls, e')"
    by blast
  have ev: "fst (snd (snd (encodeAllPoints (sort_key Timestamp) (fakeEncoder None) ?m ()))) =
     [\<lparr>Timestamp = 1, Value = ()\<rparr>, \<lparr>Timestamp = 2, Value = ()\<rparr>,
      \<lparr>Timestamp = 3, Value = ()\<rparr>, \<lparr>Timestamp = 4, Value = ()\<rparr>]"
    by (simp add: encodeAllPoints_def encodePoint_def fakeEncoder_def)
  show ?thesis using asc sorts_by_timestamp_sort_key nf eq ev by simp
qed

text \<open>
  The claim as stated fails for an encoder that returns an error: with the failing encoder
  of \<^verbatim>\<open>Test_memoryMetric_EncodeAllPoints_error\<close> and two in-order points,
  \<^verbatim>\<open>encodeAllPoints\<close> returns the error after the first call, and \<^verbatim>\<open>encodePoint\<close> is
  never called on the second point.
\<close>

theorem encodeAllPoints_failing_encoder_counterexample:
  "sorted (map Timestamp (points
      \<lparr>name = ''m1'', msize = 2, minTimestamp = 1, maxTimestamp = 2,
       points = [\<lparr>Timestamp = 1, Value = ()\<rparr>, \<lparr>Timestamp = 2, Value = ()\<rparr>],
       outOfOrderPoints = []\<rparr>)) \<and>
   encodeAllPoints (sort_key Timestamp) (fakeEncoder (Some some_error))
      \<lparr>name = ''m1'', msize = 2, minTimestamp = 1, maxTimestamp = 2,
       points = [\<lparr>Timestamp = 1, Value = ()\<rparr>, \<lparr>Timestamp = 2, Value = ()\<rparr>],
       outOfOrderPoints = []\<rparr> () =
     (Some (EncodeFailed ''some error''),
      \<lparr>name = ''m1'', msize = 2, minTimestamp = 1, maxTimestamp = 2,
       points = [\<lparr>Timestamp = 1, Value = ()\<rparr>, \<lparr>Timestamp = 2, Value = ()\<rparr>],
       outOfOrderPoints = []\<rparr>,
      [\<lparr>Timestamp = 1, Value = ()\<rparr>], ()) \<and>
   mset [\<lparr>Timestamp = 1, Value = ()\<rparr>] \<noteq>
     mset [\<lparr>Timestamp = 1, Value = ()\<rparr>, \<lparr>Timestamp = 2, Value = ()\<rparr>] + mset ([] :: unit DataPoint list)"
  by (simp add: encodeAllPoints_def encodePoint_def fakeEncoder_def some_error_def)

text \<open>
  What \<^verbatim>\<open>selectPoints\<close> does on a series that satisfies the invariant, for
  \<open>start \<le> end\<close>: the binary search finds the number of points below its bound, and the
  result is the list of the points with \<open>start \<le> Timestamp < end\<close> unless \<open>end\<close> is
  \<^verbatim>\<open>maxTimestamp\<close>; then every point from \<open>start\<close> on is returned.
\<close>

lemma Search_loop_spec:
  "\<forall>h<n. f h = Inr (P h) \<Longrightarrow> \<forall>a b. a \<le> b \<and> b < n \<and> P a \<longrightarrow> P b \<Longrightarrow>
   i \<le> j \<Longrightarrow> j \<le> n \<Longrightarrow> \<forall>k<i. \<not> P k \<Longrightarrow> \<forall>k. j \<le> k \<and> k < n \<longrightarrow> P k \<Longrightarrow>
     \<exists>k. Search_loop f i j = Inr k \<and> k \<le> n \<and> (\<forall>h<k. \<not> P h) \<and> (\<forall>h. k \<le> h \<and> h < n \<longrightarrow> P h)"
proof (induction f i j rule: Search_loop.induct)
  case (1 f i j)
  note f = "1.prems"(1) and mono = "1.prems"(2)
  show ?case
  proof (cases "i < j")
    case False
    with "1.prems" have ij: "i = j" by simp
    have "Search_loop f i j = Inr i" using False by (subst Search_loop.simps) simp
    with "1.prems" ij show ?thesis by auto
  next
    case True
    let ?h = "(i + j) div 2"
    have hb: "i \<le> ?h" "?h < j" using True by auto
    with "1.prems"(4) have hn: "?h < n" by simp
    with f have fh: "f ?h = Inr (P ?h)" by simp
    show ?thesis
    proof (cases "P ?h")
      case False
      have unf: "Search_loop f i j = Search_loop f (?h + 1) j"
        using True fh False by (subst Search_loop.simps) (simp add: Let_def)
      have below: "\<forall>k<?h + 1. \<not> P k"
      proof (intro allI impI)
        fix k assume "k < ?h + 1"
        then have "k \<le> ?h" by simp
        with mono hn False show "\<not> P k" by blast
      qed
      from "1.IH"(1) [OF True refl fh False f mono _ "1.prems"(4) below "1.prems"(6)] hb
      have "\<exists>k. Search_loop f (?h + 1) j = Inr k \<and> k \<le> n \<and> (\<forall>h<k. \<not> P h) \<and>
                (\<forall>h. k \<le> h \<and> h < n \<longrightarrow> P h)" by simp
      with unf show ?thesis by simp
    next
      case Ph: True
      have unf: "Search_loop f i j = Search_loop f i ?h"
        using True fh Ph by (subst Search_loop.simps) (simp add: Let_def)
      have above: "\<forall>k. ?h \<le> k \<and> k < n \<longrightarrow> P k"
        using mono Ph by blast
      from "1.IH"(2) [OF True refl fh _ f mono hb(1) _ "1.prems"(5) above] Ph hn
      have "\<exists>k. Search_loop f i ?h = Inr k \<and> k \<le> n \<and> (\<forall>h<k. \<not> P h) \<and>
                (\<forall>h. k \<le> h \<and> h < n \<longrightarrow> P h)" by simp
      with unf show ?thesis by simp
    qed
  qed
qed

lemma threshold_split:
  assumes "k \<le> length ps"
    and lo: "\<forall>h<k. Timestamp (ps ! h) < x"
    and hi: "\<forall>h. k \<le> h \<and> h < length ps \<longrightarrow> x \<le> Timestamp (ps ! h)"
  shows "take k ps = filter (\<lambda>p. Timestamp p < x) ps"
    and "drop k ps = filter (\<lambda>p. x \<le> Timestamp p) ps"
proof -
  have a: "\<forall>p\<in>set (take k ps). Timestamp p < x"
  proof
    fix p assume "p \<in> set (take k ps)"
    then obtain i where "i < length (take k ps)" and "p = take k ps ! i"
      by (auto simp: in_set_conv_nth)
    with lo show "Timestamp p < x" by simp
  qed
  have b: "\<forall>p\<in>set (drop k ps). x \<le> Timestamp p"
  proof
    fix p assume "p \<in> set (drop k ps)"
    then obtain i where i: "i < length (drop k ps)" and p: "p = drop k ps ! i"
      by (auto simp: in_set_conv_nth)
    from i have "k + i < length ps" by simp
    with hi have "x \<le> Timestamp (ps ! (k + i))" by simp
    with p assms(1) show "x \<le> Timestamp p" by simp
  qed
  have "filter (\<lambda>p. Timestamp p < x) ps =
          filter (\<lambda>p. Timestamp p < x) (take k ps) @ filter (\<lambda>p. Timestamp p < x) (drop k ps)"
    by (metis append_take_drop_id filter_append)
  also have "filter (\<lambda>p. Timestamp p < x) (take k ps) = take k ps"
    using a by (simp add: filter_id_conv)
  also have "filter (\<lambda>p. Timestamp p < x) (drop k ps) = []"
    using b by (auto simp: filter_empty_conv)
  finally show "take k ps = filter (\<lambda>p. Timestamp p < x) ps" by simp
  have "filter (\<lambda>p. x \<le> Timestamp p) ps =
          filter (\<lambda>p. x \<le> Timestamp p) (take k ps) @ filter (\<lambda>p. x \<le> Timestamp p) (drop k ps)"
    by (metis append_take_drop_id filter_append)
  also have "filter (\<lambda>p. x \<le> Timestamp p) (take k ps) = []"
    using a by (auto simp: filter_empty_conv)
  also have "filter (\<lambda>p. x \<le> Timestamp p) (drop k ps) = drop k ps"
    using b by (simp add: filter_id_conv)
  finally show "drop k ps = filter (\<lambda>p. x \<le> Timestamp p) ps" by simp
qed

lemma Search_points:
  assumes "sorted (map Timestamp ps)"
  shows "Search (int (length ps))
           (\<lambda>i. case point_at ps i of Inl e \<Rightarrow> Inl e | Inr p \<Rightarrow> Inr (Timestamp p \<ge> x)) =
         Inr (int (length (filter (\<lambda>p. Timestamp p < x) ps)))"
proof -
  let ?f = "\<lambda>i. case point_at ps i of Inl e \<Rightarrow> Inl e | Inr p \<Rightarrow> Inr (Timestamp p \<ge> x)"
  let ?P = "\<lambda>h. x \<le> Timestamp (ps ! h)"
  let ?n = "length ps"
  have f: "\<forall>h<?n. ?f h = Inr (?P h)" by (simp add: point_at_def)
  have mono: "\<forall>a b. a \<le> b \<and> b < ?n \<and> ?P a \<longrightarrow> ?P b"
  proof (intro allI impI)
    fix a b assume ab: "a \<le> b \<and> b < ?n \<and> ?P a"
    then have "map Timestamp ps ! a \<le> map Timestamp ps ! b"
      using assms by (intro sorted_nth_mono) auto
    with ab show "?P b" by simp
  qed
  from Search_loop_spec [where f = ?f and P = ?P and n = ?n and i = 0 and j = ?n, OF f mono]
  obtain k where sl: "Search_loop ?f 0 ?n = Inr k" and kn: "k \<le> ?n"
    and lo: "\<forall>h<k. \<not> ?P h" and hi: "\<forall>h. k \<le> h \<and> h < ?n \<longrightarrow> ?P h"
    by auto
  from lo have lo': "\<forall>h<k. Timestamp (ps ! h) < x" by auto
  from threshold_split(1) [OF kn lo' hi]
  have "length (take k ps) = length (filter (\<lambda>p. Timestamp p < x) ps)" by simp
  with kn have "k = length (filter (\<lambda>p. Timestamp p < x) ps)" by simp
  with sl show ?thesis by (simp add: Search_def)
qed

lemma sorted_filter_take_drop:
  "sorted (map Timestamp qs) \<Longrightarrow>
     filter (\<lambda>p. Timestamp p < x) qs = take (length (filter (\<lambda>p. Timestamp p < x) qs)) qs \<and>
     filter (\<lambda>p. x \<le> Timestamp p) qs = drop (length (filter (\<lambda>p. Timestamp p < x) qs)) qs"
proof (induction qs)
  case Nil
  show ?case by simp
next
  case (Cons p qs)
  then have s: "sorted (map Timestamp qs)" and le: "\<forall>q\<in>set qs. Timestamp p \<le> Timestamp q"
    by auto
  show ?case
  proof (cases "Timestamp p < x")
    case True
    with Cons.IH [OF s] show ?thesis by simp
  next
    case False
    with le have "\<forall>q\<in>set qs. \<not> Timestamp q < x" by auto
    then have "filter (\<lambda>p. Timestamp p < x) qs = []" and "filter (\<lambda>p. x \<le> Timestamp p) qs = qs"
      by (auto simp: filter_empty_conv filter_id_conv)
    with False show ?thesis by simp
  qed
qed

lemma slice_filter:
  assumes srt: "sorted (map Timestamp ps)" and se: "start \<le> end'"
  shows "slice ps (int (length (filter (\<lambda>p. Timestamp p < start) ps)))
                  (int (length (filter (\<lambda>p. Timestamp p < end') ps))) =
         Inr (filter (\<lambda>p. start \<le> Timestamp p \<and> Timestamp p < end') ps)"
proof -
  let ?a = "length (filter (\<lambda>p. Timestamp p < start) ps)"
  let ?b = "length (filter (\<lambda>p. Timestamp p < end') ps)"
  let ?qs = "drop ?a ps"
  let ?c = "length (filter (\<lambda>p. Timestamp p < end') ?qs)"
  from sorted_filter_take_drop [OF srt, of start]
  have ta: "take ?a ps = filter (\<lambda>p. Timestamp p < start) ps"
    and da: "?qs = filter (\<lambda>p. start \<le> Timestamp p) ps" by simp_all
  have sq: "sorted (map Timestamp ?qs)" using srt by (simp add: drop_map [symmetric] sorted_wrt_drop)
  have "\<forall>p\<in>set (take ?a ps). Timestamp p < end'"
    unfolding ta using se by auto
  then have "filter (\<lambda>p. Timestamp p < end') (take ?a ps) = take ?a ps"
    using filter_id_conv by blast
  then have "length (filter (\<lambda>p. Timestamp p < end') (take ?a ps)) = ?a" by simp
  moreover have "?b = length (filter (\<lambda>p. Timestamp p < end') (take ?a ps)) + ?c"
    by (metis append_take_drop_id filter_append length_append)
  ultimately have bc: "?b = ?a + ?c" by simp
  from sorted_filter_take_drop [OF sq, of end']
  have "take ?c ?qs = filter (\<lambda>p. Timestamp p < end') ?qs" by simp
  also have "\<dots> = filter (\<lambda>p. start \<le> Timestamp p \<and> Timestamp p < end') ps"
    by (simp add: da conj_commute)
  finally have tk: "take (?b - ?a) ?qs = filter (\<lambda>p. start \<le> Timestamp p \<and> Timestamp p < end') ps"
    using bc by simp
  have "?a \<le> ?b" using bc by simp
  moreover have "?b \<le> length ps" by (rule length_filter_le)
  ultimately show ?thesis using tk by (simp add: slice_def)
qed

lemma selectPoints_correct:
  assumes inv: "series_inv m" and se: "start \<le> end'"
    and nb: "points m = [] \<or> end' \<noteq> maxTimestamp m"
  shows "selectPoints m start end' =
           Inr (filter (\<lambda>p. start \<le> Timestamp p \<and> Timestamp p < end') (points m))"
proof (cases "points m = []")
  case True
  with inv have "msize m = 0" by (simp add: series_inv_def)
  with True show ?thesis
    by (simp add: selectPoints_def Search_def Search_loop.simps slice_def Let_def)
next
  case False
  let ?ps = "points m"
  from inv have sz: "msize m = int (length ?ps)" and srt: "sorted (map Timestamp ?ps)"
    and mn: "minTimestamp m = Timestamp (?ps ! 0)"
    and mx: "maxTimestamp m = Timestamp (?ps ! (length ?ps - 1))"
    using False by (simp_all add: series_inv_def)
  from False have pos: "0 < length ?ps" by simp
  have lo: "\<forall>p\<in>set ?ps. minTimestamp m \<le> Timestamp p"
  proof
    fix p assume "p \<in> set ?ps"
    then obtain i where i: "i < length ?ps" and p: "p = ?ps ! i" by (auto simp: in_set_conv_nth)
    have "map Timestamp ?ps ! 0 \<le> map Timestamp ?ps ! i"
      using srt i by (intro sorted_nth_mono) auto
    with i p mn pos show "minTimestamp m \<le> Timestamp p" by simp
  qed
  have hi: "\<forall>p\<in>set ?ps. Timestamp p \<le> maxTimestamp m"
  proof
    fix p assume "p \<in> set ?ps"
    then obtain i where i: "i < length ?ps" and p: "p = ?ps ! i" by (auto simp: in_set_conv_nth)
    have "map Timestamp ?ps ! i \<le> map Timestamp ?ps ! (length ?ps - 1)"
      using srt i by (intro sorted_nth_mono) auto
    with i p mx pos show "Timestamp p \<le> maxTimestamp m" by simp
  qed
  let ?res = "filter (\<lambda>p. start \<le> Timestamp p \<and> Timestamp p < end') ?ps"
  show ?thesis
  proof (cases "end' \<le> minTimestamp m")
    case True
    with lo have "?res = []" by (auto simp: filter_empty_conv)
    with True show ?thesis by (simp add: selectPoints_def)
  next
    case nle: False
    let ?a = "int (length (filter (\<lambda>p. Timestamp p < start) ?ps))"
    let ?b = "int (length (filter (\<lambda>p. Timestamp p < end') ?ps))"
    have sa: "(if start \<le> minTimestamp m then Inr 0
               else Search (msize m)
                     (\<lambda>i. case point_at ?ps i of Inl e \<Rightarrow> Inl e
                           | Inr p \<Rightarrow> Inr (Timestamp p \<ge> start))) = Inr ?a"
    proof (cases "start \<le> minTimestamp m")
      case True
      with lo have "filter (\<lambda>p. Timestamp p < start) ?ps = []" by (auto simp: filter_empty_conv)
      with True show ?thesis by simp
    next
      case False
      then show ?thesis using Search_points [OF srt, of start] sz by simp
    qed
    have sb: "(if end' \<ge> maxTimestamp m then Inr (msize m)
               else Search (msize m)
                     (\<lambda>i. case point_at ?ps i of Inl e \<Rightarrow> Inl e
                           | Inr p \<Rightarrow> Inr (Timestamp p \<ge> end'))) = Inr ?b"
    proof (cases "end' \<ge> maxTimestamp m")
      case True
      with nb False have "maxTimestamp m < end'" by simp
      with hi have "filter (\<lambda>p. Timestamp p < end') ?ps = ?ps" by (auto simp: filter_id_conv)
      with True sz show ?thesis by simp
    next
      case False
      then show ?thesis using Search_points [OF srt, of end'] sz by simp
    qed
    have "selectPoints m start end' = slice ?ps ?a ?b"
      using nle sa sb by (simp add: selectPoints_def Let_def)
    with slice_filter [OF srt se] show ?thesis by simp
  qed
qed

lemma selectPoints_end_is_max:
  assumes inv: "series_inv m" and ne: "points m \<noteq> []" and se: "start \<le> end'"
    and em: "end' = maxTimestamp m" and gt: "minTimestamp m < end'"
  shows "selectPoints m start end' = Inr (filter (\<lambda>p. start \<le> Timestamp p) (points m))"
proof -
  let ?ps = "points m"
  from inv ne have sz: "msize m = int (length ?ps)" and srt: "sorted (map Timestamp ?ps)"
    and mn: "minTimestamp m = Timestamp (?ps ! 0)"
    by (simp_all add: series_inv_def)
  from ne have pos: "0 < length ?ps" by simp
  have lo: "\<forall>p\<in>set ?ps. minTimestamp m \<le> Timestamp p"
  proof
    fix p assume "p \<in> set ?ps"
    then obtain i where i: "i < length ?ps" and p: "p = ?ps ! i" by (auto simp: in_set_conv_nth)
    have "map Timestamp ?ps ! 0 \<le> map Timestamp ?ps ! i"
      using srt i by (intro sorted_nth_mono) auto
    with i p mn pos show "minTimestamp m \<le> Timestamp p" by simp
  qed
  let ?a = "length (filter (\<lambda>p. Timestamp p < start) ?ps)"
  have sa: "(if start \<le> minTimestamp m then Inr 0
               else Search (msize m)
                     (\<lambda>i. case point_at ?ps i of Inl e \<Rightarrow> Inl e
                           | Inr p \<Rightarrow> Inr (Timestamp p \<ge> start))) = Inr (int ?a)"
  proof (cases "start \<le> minTimestamp m")
    case True
    with lo have "filter (\<lambda>p. Timestamp p < start) ?ps = []" by (auto simp: filter_empty_conv)
    with True show ?thesis by simp
  next
    case False
    then show ?thesis using Search_points [OF srt, of start] sz by simp
  qed
  have sb: "(if end' \<ge> maxTimestamp m then Inr (msize m)
               else Search (msize m)
                     (\<lambda>i. case point_at ?ps i of Inl e \<Rightarrow> Inl e
                           | Inr p \<Rightarrow> Inr (Timestamp p \<ge> end'))) = Inr (int (length ?ps))"
    using em sz by simp
  have nle: "\<not> end' \<le> minTimestamp m" using gt by simp
  have al: "?a \<le> length ?ps" by (rule length_filter_le)
  from sorted_filter_take_drop [OF srt, of start]
  have dr: "drop ?a ?ps = filter (\<lambda>p. start \<le> Timestamp p) ?ps" by simp
  have "selectPoints m start end' = slice ?ps (int ?a) (int (length ?ps))"
    using nle sa sb by (simp add: selectPoints_def Let_def)
  also have "\<dots> = Inr (take (length ?ps - ?a) (drop ?a ?ps))"
    using al by (simp add: slice_def)
  also have "take (length ?ps - ?a) (drop ?a ?ps) = drop ?a ?ps" by simp
  finally show ?thesis by (simp only: dr)
qed

lemma selectPoints_returns:
  assumes inv: "series_inv m" and se: "start \<le> end'"
  shows "\<exists>pts. selectPoints m start end' = Inr pts"
proof (cases "points m = [] \<or> end' \<noteq> maxTimestamp m")
  case True
  from selectPoints_correct [OF inv se True] show ?thesis by blast
next
  case False
  then have ne: "points m \<noteq> []" and em: "end' = maxTimestamp m" by simp_all
  show ?thesis
  proof (cases "minTimestamp m < end'")
    case True
    from selectPoints_end_is_max [OF inv ne se em True] show ?thesis by blast
  next
    case False
    then show ?thesis by (simp add: selectPoints_def)
  qed
qed

text \<open>
  Claim C1 fails on the code. The series holds the in-order points 1, 2, 3, so
  \<^verbatim>\<open>maxTimestamp\<close> is 3. For the query \<open>start = 1\<close>, \<open>end = 3\<close> the test
  \<^verbatim>\<open>end >= maxTimestamp\<close> sets \<^verbatim>\<open>endIdx = size\<close>, and \<^verbatim>\<open>selectPoints\<close> returns
  all three points, although the point with timestamp 3 is not below the exclusive
  \<open>end\<close>; the points with \<open>1 \<le> Timestamp < 3\<close> are the first two only.
\<close>

theorem selectPoints_end_equal_max_includes_last:
  "selectPoints \<lparr>name = ''m1'', msize = 3, minTimestamp = 1, maxTimestamp = 3,
       points = [\<lparr>Timestamp = 1, Value = ()\<rparr>, \<lparr>Timestamp = 2, Value = ()\<rparr>,
                 \<lparr>Timestamp = 3, Value = ()\<rparr>],
       outOfOrderPoints = []\<rparr> 1 3 =
     Inr [\<lparr>Timestamp = 1, Value = ()\<rparr>, \<lparr>Timestamp = 2, Value = ()\<rparr>,
          \<lparr>Timestamp = 3, Value = ()\<rparr>] \<and>
   filter (\<lambda>p. 1 \<le> Timestamp p \<and> Timestamp p < 3)
       [\<lparr>Timestamp = 1, Value = ()\<rparr>, \<lparr>Timestamp = 2, Value = ()\<rparr>,
        \<lparr>Timestamp = 3, Value = ()\<rparr>] =
     [\<lparr>Timestamp = 1, Value = ()\<rparr>, \<lparr>Timestamp = 2, Value = ()\<rparr>]"
  by (simp add: selectPoints_def slice_def)

text \<open>Both series are well formed: they satisfy the series invariant.\<close>

lemma selectPoints_failing_inputs_series_inv:
  "series_inv \<lparr>name = ''m1'', msize = 3, minTimestamp = 1, maxTimestamp = 3,
       points = [\<lparr>Timestamp = 1, Value = ()\<rparr>, \<lparr>Timestamp = 2, Value = ()\<rparr>,
                 \<lparr>Timestamp = 3, Value = ()\<rparr>],
       outOfOrderPoints = []\<rparr> \<and>
   series_inv \<lparr>name = ''m1'', msize = 5, minTimestamp = 1, maxTimestamp = 5,
       points = [\<lparr>Timestamp = 1, Value = ()\<rparr>, \<lparr>Timestamp = 2, Value = ()\<rparr>,
                 \<lparr>Timestamp = 3, Value = ()\<rparr>, \<lparr>Timestamp = 4, Value = ()\<rparr>,
                 \<lparr>Timestamp = 5, Value = ()\<rparr>],
       outOfOrderPoints = []\<rparr>"
  by (simp add: series_inv_def)

text \<open>
  A second input on which the code departs from claim C1: with the in-order points
  1, 2, 3, 4, 5 and the query \<open>start = 4\<close>, \<open>end = 2\<close> (so \<open>end \<le> start\<close>), the two
  binary searches give \<^verbatim>\<open>startIdx = 3\<close> and \<^verbatim>\<open>endIdx = 1\<close>, and the slice expression
  \<^verbatim>\<open>m.points[3:1]\<close> panics instead of giving the empty result.
\<close>

lemma selectPoints_end_before_start_panics:
  "selectPoints \<lparr>name = ''m1'', msize = 5, minTimestamp = 1, maxTimestamp = 5,
       points = [\<lparr>Timestamp = 1, Value = ()\<rparr>, \<lparr>Timestamp = 2, Value = ()\<rparr>,
                 \<lparr>Timestamp = 3, Value = ()\<rparr>, \<lparr>Timestamp = 4, Value = ()\<rparr>,
                 \<lparr>Timestamp = 5, Value = ()\<rparr>],
       outOfOrderPoints = []\<rparr> 4 2 = Inl SliceBoundsOutOfRange"
  by (simp add: selectPoints_def slice_def Search_def Search_loop.simps point_at_def)

section \<open>Results on memoryPartition\<close>

lemma getMetric_frame:
  "getMetric m nm = (mt, m') \<Longrightarrow>
     numPoints m' = numPoints m \<and> minT m' = minT m \<and> maxT m' = maxT m \<and> once m' = once m \<and>
     metrics m' nm = Some mt \<and> (\<forall>k. k \<noteq> nm \<longrightarrow> metrics m' k = metrics m k)"
  by (auto simp: getMetric_def Let_def split: option.splits)

lemma getMetric_present:
  "metrics m nm = Some mt \<Longrightarrow> getMetric m nm = (mt, m)"
  by (simp add: getMetric_def)

lemma getMetric_absent:
  "metrics m nm = None \<Longrightarrow>
     getMetric m nm =
       (\<lparr>name = nm, msize = 0, minTimestamp = 0, maxTimestamp = 0, points = [], outOfOrderPoints = []\<rparr>,
        m\<lparr>metrics := (metrics m)(nm \<mapsto>
          \<lparr>name = nm, msize = 0, minTimestamp = 0, maxTimestamp = 0, points = [], outOfOrderPoints = []\<rparr>)\<rparr>)"
  by (simp add: getMetric_def Let_def)

lemma loop_frame:
  "insertRows_loop mmn now rows st = (r, st') \<Longrightarrow>
     numPoints (part st') = numPoints (part st) \<and> minT (part st') = minT (part st) \<and>
     maxT (part st') = maxT (part st) \<and> once (part st') = once (part st)"
proof (induction rows arbitrary: st)
  case Nil
  then show ?case by simp
next
  case (Cons row rows)
  show ?case
  proof (cases "Timestamp row < minT (part st)")
    case True
    with Cons.prems have "insertRows_loop mmn now rows (st\<lparr>outdatedRows := outdatedRows st @ [row]\<rparr>) = (r, st')"
      by simp
    from Cons.IH [OF this] show ?thesis by simp
  next
    case False
    let ?row1 = "if Timestamp row = 0 then row\<lparr>Timestamp := now (nowCalls st)\<rparr> else row"
    let ?nm = "mmn (Metric row) (Labels row)"
    obtain mt p1 where gm: "getMetric (part st) ?nm = (mt, p1)" by (cases "getMetric (part st) ?nm")
    note fr = getMetric_frame [OF gm]
    show ?thesis
    proof (cases "insertPoint mt (DataPoint.truncate ?row1)")
      case (Inl e)
      with Cons.prems False gm have "st' = st\<lparr>part := p1\<rparr>"
        by (auto simp: Let_def split: if_splits)
      with fr show ?thesis by simp
    next
      case (Inr mt')
      with Cons.prems False gm obtain s1 where
        s1: "insertRows_loop mmn now rows s1 = (r, st')" and
        p1: "part s1 = p1\<lparr>metrics := (metrics p1)(?nm \<mapsto> mt')\<rparr>"
        by (auto simp: Let_def split: if_splits)
      from Cons.IH [OF s1] p1 fr show ?thesis by simp
    qed
  qed
qed

lemma insertPoint_returns:
  "series_inv m \<Longrightarrow> \<exists>m'. insertPoint m p = Inr m' \<and> series_inv m'"
proof (cases "points m = []")
  case True
  assume "series_inv m"
  with True show ?thesis by (simp add: insertPoint_def series_inv_def)
next
  case False
  assume inv: "series_inv m"
  then have sz: "msize m = int (length (points m))" by (simp add: series_inv_def)
  from False have pos: "0 < length (points m)" by simp
  have idx: "nat (msize m - 1) = length (points m) - 1" using sz pos by simp
  show ?thesis
  proof (cases "Timestamp (points m ! (length (points m) - 1)) < Timestamp p")
    case True
    have "sorted (map Timestamp (points m @ [p]))"
      using inv False True by (intro sorted_snoc_last) (auto simp: series_inv_def)
    then show ?thesis
      using inv False True sz pos idx
      by (simp add: insertPoint_def Let_def series_inv_def nth_append)
  next
    case nlt: False
    then show ?thesis
      using inv False sz pos idx by (simp add: insertPoint_def Let_def series_inv_def)
  qed
qed

lemma loop_Cons_outdated:
  "Timestamp row < minT (part st) \<Longrightarrow>
     insertRows_loop mmn now (row # rows) st =
       insertRows_loop mmn now rows (st\<lparr>outdatedRows := outdatedRows st @ [row]\<rparr>)"
  by simp

lemma loop_Cons_insert:
  assumes "\<not> Timestamp row < minT (part st)"
    and "getMetric (part st) (mmn (Metric row) (Labels row)) = (mt, p1)"
    and "insertPoint mt (DataPoint.truncate
           (if Timestamp row = 0 then row\<lparr>Timestamp := now (nowCalls st)\<rparr> else row)) = Inr mt'"
  shows "insertRows_loop mmn now (row # rows) st =
      insertRows_loop mmn now rows
        (st\<lparr>part := p1\<lparr>metrics := (metrics p1)(mmn (Metric row) (Labels row) \<mapsto> mt')\<rparr>,
            maxTs := max (maxTs st)
               (Timestamp (if Timestamp row = 0 then row\<lparr>Timestamp := now (nowCalls st)\<rparr> else row)),
            rowsNum := rowsNum st + 1,
            nowCalls := (if Timestamp row = 0 then nowCalls st + 1 else nowCalls st)\<rparr>)"
  using assms by (auto simp: Let_def max_def)

lemma loop_Cons_panic:
  assumes "\<not> Timestamp row < minT (part st)"
    and "getMetric (part st) (mmn (Metric row) (Labels row)) = (mt, p1)"
    and "insertPoint mt (DataPoint.truncate
           (if Timestamp row = 0 then row\<lparr>Timestamp := now (nowCalls st)\<rparr> else row)) = Inl e"
  shows "insertRows_loop mmn now (row # rows) st = (Some e, st\<lparr>part := p1\<rparr>)"
  using assms by (auto simp: Let_def)

lemma loop_counts:
  "insertRows_loop mmn now rows st = (None, st') \<Longrightarrow>
     outdatedRows st' = outdatedRows st @ filter (\<lambda>r. Timestamp r < minT (part st)) rows \<and>
     rowsNum st' = rowsNum st + int (length (filter (\<lambda>r. \<not> Timestamp r < minT (part st)) rows)) \<and>
     maxTs st \<le> maxTs st'"
proof (induction rows arbitrary: st)
  case Nil
  then show ?case by simp
next
  case (Cons row rows)
  show ?case
  proof (cases "Timestamp row < minT (part st)")
    case True
    with Cons.prems have "insertRows_loop mmn now rows (st\<lparr>outdatedRows := outdatedRows st @ [row]\<rparr>) = (None, st')"
      by simp
    from Cons.IH [OF this] True show ?thesis by simp
  next
    case False
    let ?row1 = "if Timestamp row = 0 then row\<lparr>Timestamp := now (nowCalls st)\<rparr> else row"
    let ?nm = "mmn (Metric row) (Labels row)"
    obtain mt p1 where gm: "getMetric (part st) ?nm = (mt, p1)" by (cases "getMetric (part st) ?nm")
    note fr = getMetric_frame [OF gm]
    show ?thesis
    proof (cases "insertPoint mt (DataPoint.truncate ?row1)")
      case (Inl e)
      from loop_Cons_panic [where mmn = mmn and now = now and rows = rows, OF False gm Inl] Cons.prems show ?thesis by simp
    next
      case (Inr mt')
      let ?s1 = "st\<lparr>part := p1\<lparr>metrics := (metrics p1)(?nm \<mapsto> mt')\<rparr>,
            maxTs := max (maxTs st) (Timestamp ?row1),
            rowsNum := rowsNum st + 1,
            nowCalls := (if Timestamp row = 0 then nowCalls st + 1 else nowCalls st)\<rparr>"
      from loop_Cons_insert [where mmn = mmn and now = now and rows = rows, OF False gm Inr] Cons.prems
      have "insertRows_loop mmn now rows ?s1 = (None, st')" by simp
      from Cons.IH [OF this] False fr show ?thesis by simp
    qed
  qed
qed


lemma getMetric_series_inv:
  "all_series_inv m \<Longrightarrow> getMetric m nm = (mt, m') \<Longrightarrow> series_inv mt \<and> all_series_inv m'"
  by (auto simp: getMetric_def Let_def all_series_inv_def series_inv_def split: option.splits if_splits)

lemma loop_no_panic:
  "all_series_inv (part st) \<Longrightarrow>
     \<exists>st'. insertRows_loop mmn now rows st = (None, st') \<and> all_series_inv (part st')"
proof (induction rows arbitrary: st)
  case Nil
  then show ?case by simp
next
  case (Cons row rows)
  show ?case
  proof (cases "Timestamp row < minT (part st)")
    case True
    from Cons.IH [of "st\<lparr>outdatedRows := outdatedRows st @ [row]\<rparr>"] Cons.prems True
    show ?thesis by simp
  next
    case False
    let ?row1 = "if Timestamp row = 0 then row\<lparr>Timestamp := now (nowCalls st)\<rparr> else row"
    let ?nm = "mmn (Metric row) (Labels row)"
    obtain mt p1 where gm: "getMetric (part st) ?nm = (mt, p1)" by (cases "getMetric (part st) ?nm")
    from getMetric_series_inv [OF Cons.prems gm]
    have mi: "series_inv mt" and pi: "all_series_inv p1" by simp_all
    from insertPoint_returns [OF mi, of "DataPoint.truncate ?row1"]
    obtain mt' where ip: "insertPoint mt (DataPoint.truncate ?row1) = Inr mt'" and mi': "series_inv mt'"
      by blast
    let ?s1 = "st\<lparr>part := p1\<lparr>metrics := (metrics p1)(?nm \<mapsto> mt')\<rparr>,
            maxTs := max (maxTs st) (Timestamp ?row1),
            rowsNum := rowsNum st + 1,
            nowCalls := (if Timestamp row = 0 then nowCalls st + 1 else nowCalls st)\<rparr>"
    have "all_series_inv (part ?s1)"
      using pi mi' by (auto simp: all_series_inv_def)
    from Cons.IH [OF this] loop_Cons_insert [where mmn = mmn and now = now and rows = rows, OF False gm ip]
    show ?thesis by simp
  qed
qed

lemma min_loop_Min:
  "min_loop rows mn = Min (insert mn (Timestamp ` set rows))"
proof (induction rows arbitrary: mn)
  case Nil
  show ?case by simp
next
  case (Cons row rows)
  have "Min (insert mn (Timestamp ` set (row # rows))) =
        Min (insert (min (Timestamp row) mn) (Timestamp ` set rows))"
  proof (cases "set rows = {}")
    case True
    then show ?thesis by (simp add: min.commute)
  next
    case False
    then have ne: "Timestamp ` set rows \<noteq> {}" by simp
    have fin: "finite (Timestamp ` set rows)" by simp
    show ?thesis
      using ne fin by (simp add: Min_insert min.assoc min.commute min.left_commute)
  qed
  moreover have "(if Timestamp row < mn then Timestamp row else mn) = min (Timestamp row) mn"
    by (simp add: min_def)
  ultimately show ?case using Cons.IH by simp
qed

lemma min_loop_first:
  "rows \<noteq> [] \<Longrightarrow> min_loop rows (Timestamp (rows ! 0)) = Min (Timestamp ` set rows)"
proof -
  assume "rows \<noteq> []"
  then have "Timestamp (rows ! 0) \<in> Timestamp ` set rows" by (cases rows) simp_all
  then have "insert (Timestamp (rows ! 0)) (Timestamp ` set rows) = Timestamp ` set rows" by auto
  then show ?thesis by (simp add: min_loop_Min)
qed

lemma insertRows_empty: "insertRows mmn now w m [] = (Inl NoRowsGiven, m)"
  by (simp add: insertRows_def)

lemma insertRows_wal_failed:
  "rows \<noteq> [] \<Longrightarrow> insertRows mmn now (Some err) m rows = (Inl (WalWriteFailed err), m)"
  by (simp add: insertRows_def)

lemma insertRows_success:
  assumes ne: "rows \<noteq> []" and inv: "all_series_inv m"
  shows "\<exists>st'.
     insertRows_loop mmn now rows
        \<lparr>part = (if once m then m
                  else m\<lparr>minT := min_loop rows (Timestamp (rows ! 0)), once := True\<rparr>),
         outdatedRows = [], maxTs = Timestamp (rows ! 0), rowsNum = 0, nowCalls = 0\<rparr> = (None, st') \<and>
     all_series_inv (part st') \<and>
     insertRows mmn now None m rows =
       (Inr (outdatedRows st'),
        (part st')\<lparr>numPoints := numPoints (part st') + rowsNum st',
                   maxT := max (maxT (part st')) (maxTs st')\<rparr>)"
proof -
  let ?m1 = "if once m then m else m\<lparr>minT := min_loop rows (Timestamp (rows ! 0)), once := True\<rparr>"
  let ?st0 = "\<lparr>part = ?m1, outdatedRows = [], maxTs = Timestamp (rows ! 0), rowsNum = 0, nowCalls = 0\<rparr>"
  have "all_series_inv (part ?st0)" using inv by (simp add: all_series_inv_def)
  from loop_no_panic [OF this, of mmn now rows]
  obtain st' where lp: "insertRows_loop mmn now rows ?st0 = (None, st')" and ai: "all_series_inv (part st')"
    by blast
  have "insertRows mmn now None m rows =
       (Inr (outdatedRows st'),
        (part st')\<lparr>numPoints := numPoints (part st') + rowsNum st',
                   maxT := max (maxT (part st')) (maxTs st')\<rparr>)"
    using ne lp by (simp add: insertRows_def Let_def max_def)
  with lp ai show ?thesis by blast
qed

lemma insertRows_partition_inv:
  assumes "partition_inv m"
  shows "partition_inv (snd (insertRows mmn now w m rows))"
proof (cases "rows = [] \<or> w \<noteq> None")
  case True
  then show ?thesis using assms
    by (cases "rows = []") (auto simp: insertRows_empty insertRows_wal_failed)
next
  case False
  then have ne: "rows \<noteq> []" and w: "w = None" by simp_all
  from assms have inv: "all_series_inv m" and mx: "0 \<le> maxT m" and mn: "once m \<longrightarrow> minT m \<le> maxT m"
    by (simp_all add: partition_inv_def)
  let ?m1 = "if once m then m else m\<lparr>minT := min_loop rows (Timestamp (rows ! 0)), once := True\<rparr>"
  let ?st0 = "\<lparr>part = ?m1, outdatedRows = [], maxTs = Timestamp (rows ! 0), rowsNum = 0, nowCalls = 0\<rparr>"
  from insertRows_success [OF ne inv, of mmn now]
  obtain st' where lp: "insertRows_loop mmn now rows ?st0 = (None, st')" and ai: "all_series_inv (part st')"
    and eq: "insertRows mmn now None m rows =
       (Inr (outdatedRows st'),
        (part st')\<lparr>numPoints := numPoints (part st') + rowsNum st',
                   maxT := max (maxT (part st')) (maxTs st')\<rparr>)"
    by blast
  from loop_frame [OF lp] have fr: "minT (part st') = minT ?m1" "maxT (part st') = maxT ?m1"
     "once (part st') = once ?m1" by simp_all
  from loop_counts [OF lp] have le: "Timestamp (rows ! 0) \<le> maxTs st'" by simp
  have "min_loop rows (Timestamp (rows ! 0)) \<le> Timestamp (rows ! 0)"
    by (simp add: min_loop_Min)
  with le fr mn mx ai have "partition_inv ((part st')\<lparr>numPoints := numPoints (part st') + rowsNum st',
                   maxT := max (maxT (part st')) (maxTs st')\<rparr>)"
    by (auto simp: partition_inv_def all_series_inv_def)
  with eq w show ?thesis by simp
qed

lemma selectDataPoints_partition_inv:
  assumes "partition_inv m"
  shows "partition_inv (snd (selectDataPoints mmn m metric labels start end'))"
proof -
  obtain mt m' where gm: "getMetric m (mmn metric labels) = (mt, m')"
    by (cases "getMetric m (mmn metric labels)")
  from assms getMetric_series_inv [OF _ gm] getMetric_frame [OF gm]
  have "partition_inv m'" by (simp add: partition_inv_def)
  with gm show ?thesis by (simp add: selectDataPoints_def)
qed

lemma reachable_partition_inv: "reachable mmn m \<Longrightarrow> partition_inv m"
proof (induction rule: reachable.induct)
  case reachable_new
  show ?case by (simp add: partition_inv_def all_series_inv_def newMemoryPartition_def)
next
  case (reachable_insertRows m now wal_append rows)
  then show ?case by (simp add: insertRows_partition_inv)
next
  case (reachable_selectDataPoints m metric labels start end')
  then show ?case by (simp add: selectDataPoints_partition_inv)
qed

text \<open>
  Claim C5. On a partition the code can build, \<^verbatim>\<open>insertRows\<close> returns an error if and
  only if the batch is empty or \<^verbatim>\<open>wal.append\<close> returns an error, and in both cases the
  partition is exactly as before the call (the latch \<^verbatim>\<open>once\<close>, \<^verbatim>\<open>minT\<close>,
  \<^verbatim>\<open>maxT\<close>, \<^verbatim>\<open>numPoints\<close> and \<^verbatim>\<open>metrics\<close> included).
\<close>

theorem insertRows_error_iff:
  assumes "reachable mmn m"
  shows "((\<exists>e. fst (insertRows mmn now w m rows) = Inl e) \<longleftrightarrow> rows = [] \<or> w \<noteq> None) \<and>
         (rows = [] \<longrightarrow> insertRows mmn now w m rows = (Inl NoRowsGiven, m)) \<and>
         (\<forall>err. rows \<noteq> [] \<and> w = Some err \<longrightarrow>
            insertRows mmn now w m rows = (Inl (WalWriteFailed err), m))"
proof -
  from assms have "all_series_inv m"
    using reachable_partition_inv by (auto simp: partition_inv_def)
  from insertRows_success [OF _ this, of rows mmn now]
  have ok: "rows \<noteq> [] \<Longrightarrow> w = None \<Longrightarrow> \<exists>out m'. insertRows mmn now w m rows = (Inr out, m')"
    by blast
  show ?thesis
  proof (cases "rows = []")
    case True
    then show ?thesis by (simp add: insertRows_empty)
  next
    case False
    show ?thesis
    proof (cases w)
      case None
      with False ok show ?thesis by auto
    next
      case (Some err)
      with False show ?thesis by (simp add: insertRows_wal_failed)
    qed
  qed
qed

theorem insertRows_error_iff_witness:
  "reachable metricNameOnly (newMemoryPartition :: unit memoryPartition) \<and>
   insertRows metricNameOnly clock0 (Some ''disk full'') newMemoryPartition [mkRow ''metric1'' 1] =
     (Inl (WalWriteFailed ''disk full''), newMemoryPartition) \<and>
   insertRows metricNameOnly clock0 None (newMemoryPartition :: unit memoryPartition) [] =
     (Inl NoRowsGiven, newMemoryPartition) \<and>
   (\<nexists>e. fst (insertRows metricNameOnly clock0 None newMemoryPartition [mkRow ''metric1'' 1]) = Inl e)"
proof -
  have r: "reachable metricNameOnly (newMemoryPartition :: unit memoryPartition)"
    by (rule reachable_new)
  show ?thesis
    using r
      insertRows_error_iff [OF r, of clock0 "Some ''disk full''" "[mkRow ''metric1'' 1]"]
      insertRows_error_iff [OF r, of clock0 None "[]"]
      insertRows_error_iff [OF r, of clock0 None "[mkRow ''metric1'' 1]"]
    by simp
qed

lemma insertRows_result_cases:
  assumes "insertRows mmn now w m rows = (Inr out, m')"
  shows "rows \<noteq> [] \<and> w = None \<and>
    (\<exists>st'. insertRows_loop mmn now rows
        \<lparr>part = (if once m then m
                  else m\<lparr>minT := min_loop rows (Timestamp (rows ! 0)), once := True\<rparr>),
         outdatedRows = [], maxTs = Timestamp (rows ! 0), rowsNum = 0, nowCalls = 0\<rparr> = (None, st') \<and>
       out = outdatedRows st' \<and>
       m' = (part st')\<lparr>numPoints := numPoints (part st') + rowsNum st',
                   maxT := max (maxT (part st')) (maxTs st')\<rparr>)"
proof -
  let ?st0 = "\<lparr>part = (if once m then m
                  else m\<lparr>minT := min_loop rows (Timestamp (rows ! 0)), once := True\<rparr>),
         outdatedRows = [], maxTs = Timestamp (rows ! 0), rowsNum = 0, nowCalls = 0\<rparr>"
  from assms have ne: "rows \<noteq> []" by (auto simp: insertRows_def)
  from assms ne have w: "w = None" by (cases w) (auto simp: insertRows_def)
  obtain r st' where lp: "insertRows_loop mmn now rows ?st0 = (r, st')"
    by (cases "insertRows_loop mmn now rows ?st0")
  from assms ne w lp have r: "r = None" by (cases r) (auto simp: insertRows_def Let_def)
  from assms ne w lp r have "out = outdatedRows st' \<and>
       m' = (part st')\<lparr>numPoints := numPoints (part st') + rowsNum st',
                   maxT := max (maxT (part st')) (maxTs st')\<rparr>"
    by (auto simp: insertRows_def Let_def max_def)
  with ne w lp r show ?thesis by blast
qed

text \<open>
  Claim C9. When \<^verbatim>\<open>insertRows\<close> returns the outdated rows \<open>out\<close> with a nil error for
  the batch \<open>rows\<close>, \<^verbatim>\<open>size()\<close> has grown by exactly \<open>len(rows) - len(out)\<close>.
\<close>

theorem insertRows_size_increase:
  assumes "insertRows mmn now w m rows = (Inr out, m')"
  shows "mp_size m' = mp_size m + int (length rows) - int (length out)"
proof -
  let ?m1 = "if once m then m else m\<lparr>minT := min_loop rows (Timestamp (rows ! 0)), once := True\<rparr>"
  let ?st0 = "\<lparr>part = ?m1, outdatedRows = [], maxTs = Timestamp (rows ! 0), rowsNum = 0, nowCalls = 0\<rparr>"
  from insertRows_result_cases [OF assms]
  obtain st' where lp: "insertRows_loop mmn now rows ?st0 = (None, st')"
    and out: "out = outdatedRows st'"
    and m': "m' = (part st')\<lparr>numPoints := numPoints (part st') + rowsNum st',
                   maxT := max (maxT (part st')) (maxTs st')\<rparr>"
    by blast
  from loop_frame [OF lp] have np: "numPoints (part st') = numPoints m" by simp
  from loop_counts [OF lp]
  have o: "outdatedRows st' = filter (\<lambda>r. Timestamp r < minT ?m1) rows"
    and n: "rowsNum st' = int (length (filter (\<lambda>r. \<not> Timestamp r < minT ?m1) rows))"
    by simp_all
  have "length (filter (\<lambda>r. Timestamp r < minT ?m1) rows) +
        length (filter (\<lambda>r. \<not> Timestamp r < minT ?m1) rows) = length rows"
    by (rule sum_length_filter_compl)
  then have "rowsNum st' = int (length rows) - int (length out)"
    unfolding n out o by linarith
  with np m' show ?thesis by (simp add: mp_size_def)
qed

lemma insertRows_minT_once:
  "minT (snd (insertRows mmn now w m rows)) =
     (if rows \<noteq> [] \<and> w = None \<and> \<not> once m then Min (Timestamp ` set rows) else minT m) \<and>
   once (snd (insertRows mmn now w m rows)) = (once m \<or> (rows \<noteq> [] \<and> w = None))"
proof (cases "rows = []")
  case True
  then show ?thesis by (simp add: insertRows_empty)
next
  case False
  show ?thesis
  proof (cases w)
    case (Some err)
    with False show ?thesis by (simp add: insertRows_wal_failed)
  next
    case None
    let ?m1 = "if once m then m else m\<lparr>minT := min_loop rows (Timestamp (rows ! 0)), once := True\<rparr>"
    let ?st0 = "\<lparr>part = ?m1, outdatedRows = [], maxTs = Timestamp (rows ! 0), rowsNum = 0, nowCalls = 0\<rparr>"
    obtain r st' where lp: "insertRows_loop mmn now rows ?st0 = (r, st')"
      by (cases "insertRows_loop mmn now rows ?st0")
    from loop_frame [OF lp] have fr: "minT (part st') = minT ?m1" "once (part st') = once ?m1"
      by simp_all
    have "minT (snd (insertRows mmn now None m rows)) = minT (part st') \<and>
          once (snd (insertRows mmn now None m rows)) = once (part st')"
      using False lp by (cases r) (simp_all add: insertRows_def Let_def)
    with fr False None show ?thesis by (simp add: min_loop_first)
  qed
qed

lemma insertRows_calls_append:
  "insertRows_calls mmn m (cs @ ds) = insertRows_calls mmn (insertRows_calls mmn m cs) ds"
  by (induction cs arbitrary: m) simp_all

lemma insertRows_calls_all_fail:
  "\<forall>c\<in>set cs. call_rows c = [] \<or> call_wal c \<noteq> None \<Longrightarrow> insertRows_calls mmn m cs = m"
proof (induction cs arbitrary: m)
  case Nil
  show ?case by simp
next
  case (Cons c cs)
  then have "call_rows c = [] \<or> call_wal c \<noteq> None" by simp
  then have "snd (insertRows mmn (call_now c) (call_wal c) m (call_rows c)) = m"
    by (cases "call_rows c = []") (auto simp: insertRows_empty insertRows_wal_failed)
  with Cons show ?case by simp
qed

lemma insertRows_calls_latched:
  "once m \<Longrightarrow> minT (insertRows_calls mmn m cs) = minT m \<and> once (insertRows_calls mmn m cs)"
proof (induction cs arbitrary: m)
  case Nil
  then show ?case by simp
next
  case (Cons c cs)
  let ?m' = "snd (insertRows mmn (call_now c) (call_wal c) m (call_rows c))"
  from insertRows_minT_once [of mmn "call_now c" "call_wal c" m "call_rows c"] Cons.prems
  have "minT ?m' = minT m" "once ?m'" by simp_all
  with Cons.IH [of ?m'] show ?case by simp
qed

text \<open>
  Claim C8. Take any sequence of \<^verbatim>\<open>insertRows\<close> calls on a partition whose latch has not
  fired. After the first call that has a non-empty batch and passes the WAL append, and after
  any number of later calls, \<^verbatim>\<open>minTimestamp()\<close> is the least raw timestamp of that first
  successful batch.
\<close>

theorem minT_latched_by_first_successful_batch:
  assumes "\<not> once m"
    and "\<forall>c\<in>set pre. call_rows c = [] \<or> call_wal c \<noteq> None"
    and "call_rows c \<noteq> []" and "call_wal c = None"
  shows "mp_minTimestamp (insertRows_calls mmn m (pre @ c # post)) =
           Min (Timestamp ` set (call_rows c))"
proof -
  let ?m1 = "snd (insertRows mmn (call_now c) (call_wal c) m (call_rows c))"
  have "insertRows_calls mmn m (pre @ c # post) = insertRows_calls mmn ?m1 post"
    using assms(2) by (simp add: insertRows_calls_append insertRows_calls_all_fail)
  moreover from insertRows_minT_once [of mmn "call_now c" "call_wal c" m "call_rows c"] assms
  have "minT ?m1 = Min (Timestamp ` set (call_rows c))" "once ?m1" by simp_all
  ultimately show ?thesis
    using insertRows_calls_latched [of ?m1 mmn post] by (simp add: mp_minTimestamp_def)
qed

lemma loop_Cons_insert_eq:
  assumes "\<not> Timestamp row < minT (part st)"
    and "getMetric (part st) (mmn (Metric row) (Labels row)) = (mt, p1)"
    and "insertPoint mt (DataPoint.truncate
           (if Timestamp row = 0 then row\<lparr>Timestamp := now (nowCalls st)\<rparr> else row)) = Inr mt'"
    and "s1 = st\<lparr>part := p1\<lparr>metrics := (metrics p1)(mmn (Metric row) (Labels row) \<mapsto> mt')\<rparr>,
            maxTs := max (maxTs st)
               (Timestamp (if Timestamp row = 0 then row\<lparr>Timestamp := now (nowCalls st)\<rparr> else row)),
            rowsNum := rowsNum st + 1,
            nowCalls := (if Timestamp row = 0 then nowCalls st + 1 else nowCalls st)\<rparr>"
  shows "insertRows_loop mmn now (row # rows) st = insertRows_loop mmn now rows s1"
  using assms(4) loop_Cons_insert [where mmn = mmn and now = now and rows = rows, OF assms(1-3)]
  by simp

lemma loop_Cons_panic_eq:
  assumes "\<not> Timestamp row < minT (part st)"
    and "getMetric (part st) (mmn (Metric row) (Labels row)) = (mt, p1)"
    and "insertPoint mt (DataPoint.truncate
           (if Timestamp row = 0 then row\<lparr>Timestamp := now (nowCalls st)\<rparr> else row)) = Inl e"
    and "s1 = st\<lparr>part := p1\<rparr>"
  shows "insertRows_loop mmn now (row # rows) st = (Some e, s1)"
  using assms(4) loop_Cons_panic [where mmn = mmn and now = now and rows = rows, OF assms(1-3)]
  by simp

lemma loop_filter:
  "insertRows_loop mmn now rows st = (r, st') \<Longrightarrow>
     insertRows_loop mmn now (filter (\<lambda>x. \<not> Timestamp x < minT (part st)) rows)
        (st\<lparr>outdatedRows := out\<rparr>) = (r, st'\<lparr>outdatedRows := out\<rparr>)"
proof (induction rows arbitrary: st)
  case Nil
  then show ?case by simp
next
  case (Cons row rows)
  show ?case
  proof (cases "Timestamp row < minT (part st)")
    case True
    with Cons.prems have "insertRows_loop mmn now rows (st\<lparr>outdatedRows := outdatedRows st @ [row]\<rparr>) = (r, st')"
      by simp
    from Cons.IH [OF this] True show ?thesis by simp
  next
    case False
    let ?row1 = "if Timestamp row = 0 then row\<lparr>Timestamp := now (nowCalls st)\<rparr> else row"
    let ?nm = "mmn (Metric row) (Labels row)"
    let ?so = "st\<lparr>outdatedRows := out\<rparr>"
    obtain mt p1 where gm: "getMetric (part st) ?nm = (mt, p1)" by (cases "getMetric (part st) ?nm")
    have gmo: "getMetric (part ?so) ?nm = (mt, p1)" using gm by simp
    have Fo: "\<not> Timestamp row < minT (part ?so)" using False by simp
    note fr = getMetric_frame [OF gm]
    show ?thesis
    proof (cases "insertPoint mt (DataPoint.truncate ?row1)")
      case (Inl e)
      have ipo: "insertPoint mt (DataPoint.truncate
           (if Timestamp row = 0 then row\<lparr>Timestamp := now (nowCalls ?so)\<rparr> else row)) = Inl e"
        using Inl by (auto split: if_splits)
      from loop_Cons_panic [where mmn = mmn and now = now and rows = rows, OF False gm Inl] Cons.prems
      have a: "r = Some e" "st' = st\<lparr>part := p1\<rparr>" by simp_all
      have "insertRows_loop mmn now (row # filter (\<lambda>x. \<not> Timestamp x < minT (part st)) rows) ?so =
              (Some e, (st\<lparr>part := p1\<rparr>)\<lparr>outdatedRows := out\<rparr>)"
        by (rule loop_Cons_panic_eq [where mmn = mmn and now = now, OF Fo gmo ipo]) simp
      then show ?thesis using False a by simp
    next
      case (Inr mt')
      have ipo: "insertPoint mt (DataPoint.truncate
           (if Timestamp row = 0 then row\<lparr>Timestamp := now (nowCalls ?so)\<rparr> else row)) = Inr mt'"
        using Inr by (auto split: if_splits)
      let ?s1 = "st\<lparr>part := p1\<lparr>metrics := (metrics p1)(?nm \<mapsto> mt')\<rparr>,
            maxTs := max (maxTs st) (Timestamp ?row1),
            rowsNum := rowsNum st + 1,
            nowCalls := (if Timestamp row = 0 then nowCalls st + 1 else nowCalls st)\<rparr>"
      from loop_Cons_insert [where mmn = mmn and now = now and rows = rows, OF False gm Inr] Cons.prems
      have "insertRows_loop mmn now rows ?s1 = (r, st')" by simp
      from Cons.IH [OF this] fr
      have ih: "insertRows_loop mmn now (filter (\<lambda>x. \<not> Timestamp x < minT (part st)) rows)
                  (?s1\<lparr>outdatedRows := out\<rparr>) = (r, st'\<lparr>outdatedRows := out\<rparr>)"
        by simp
      have "insertRows_loop mmn now (row # filter (\<lambda>x. \<not> Timestamp x < minT (part st)) rows) ?so =
              insertRows_loop mmn now (filter (\<lambda>x. \<not> Timestamp x < minT (part st)) rows)
                (?s1\<lparr>outdatedRows := out\<rparr>)"
        by (rule loop_Cons_insert_eq [where mmn = mmn and now = now, OF Fo gmo ipo]) simp
      then show ?thesis using False ih by simp
    qed
  qed
qed

lemma loop_maxTs_shift:
  "insertRows_loop mmn now rows st = (None, sa) \<Longrightarrow>
     \<exists>v. insertRows_loop mmn now rows (st\<lparr>maxTs := b\<rparr>) = (None, sa\<lparr>maxTs := v\<rparr>) \<and> b \<le> v \<and>
         (\<forall>K. maxTs st \<le> K \<and> b \<le> K \<longrightarrow> max K v = max K (maxTs sa))"
proof (induction rows arbitrary: st b)
  case Nil
  then show ?case by auto
next
  case (Cons row rows)
  show ?case
  proof (cases "Timestamp row < minT (part st)")
    case True
    with Cons.prems have "insertRows_loop mmn now rows (st\<lparr>outdatedRows := outdatedRows st @ [row]\<rparr>) = (None, sa)"
      by simp
    from Cons.IH [OF this, of b]
    obtain v where
      lv: "insertRows_loop mmn now rows
             (st\<lparr>outdatedRows := outdatedRows st @ [row], maxTs := b\<rparr>) = (None, sa\<lparr>maxTs := v\<rparr>)" and
      bv: "b \<le> v" and
      kv: "\<forall>K. maxTs st \<le> K \<and> b \<le> K \<longrightarrow> max K v = max K (maxTs sa)"
      by auto
    have e: "st\<lparr>maxTs := b, outdatedRows := outdatedRows st @ [row]\<rparr> =
          st\<lparr>outdatedRows := outdatedRows st @ [row], maxTs := b\<rparr>"
      by simp
    have "insertRows_loop mmn now (row # rows) (st\<lparr>maxTs := b\<rparr>) =
            insertRows_loop mmn now rows
              (st\<lparr>maxTs := b, outdatedRows := outdatedRows st @ [row]\<rparr>)"
      using True by simp
    then have "insertRows_loop mmn now (row # rows) (st\<lparr>maxTs := b\<rparr>) =
            insertRows_loop mmn now rows
              (st\<lparr>outdatedRows := outdatedRows st @ [row], maxTs := b\<rparr>)"
      by (simp only: e)
    with lv bv kv show ?thesis by auto
  next
    case False
    let ?row1 = "if Timestamp row = 0 then row\<lparr>Timestamp := now (nowCalls st)\<rparr> else row"
    let ?nm = "mmn (Metric row) (Labels row)"
    let ?sb = "st\<lparr>maxTs := b\<rparr>"
    obtain mt p1 where gm: "getMetric (part st) ?nm = (mt, p1)" by (cases "getMetric (part st) ?nm")
    have gmb: "getMetric (part ?sb) ?nm = (mt, p1)" using gm by simp
    have Fb: "\<not> Timestamp row < minT (part ?sb)" using False by simp
    show ?thesis
    proof (cases "insertPoint mt (DataPoint.truncate ?row1)")
      case (Inl e)
      from loop_Cons_panic [where mmn = mmn and now = now and rows = rows, OF False gm Inl] Cons.prems
      show ?thesis by simp
    next
      case (Inr mt')
      have ipb: "insertPoint mt (DataPoint.truncate
           (if Timestamp row = 0 then row\<lparr>Timestamp := now (nowCalls ?sb)\<rparr> else row)) = Inr mt'"
        using Inr by (auto split: if_splits)
      let ?t = "Timestamp ?row1"
      let ?s1 = "st\<lparr>part := p1\<lparr>metrics := (metrics p1)(?nm \<mapsto> mt')\<rparr>,
            maxTs := max (maxTs st) ?t,
            rowsNum := rowsNum st + 1,
            nowCalls := (if Timestamp row = 0 then nowCalls st + 1 else nowCalls st)\<rparr>"
      from loop_Cons_insert [where mmn = mmn and now = now and rows = rows, OF False gm Inr] Cons.prems
      have l1: "insertRows_loop mmn now rows ?s1 = (None, sa)" by simp
      from loop_counts [OF l1] have mono: "max (maxTs st) ?t \<le> maxTs sa" by simp
      from Cons.IH [OF l1, of "max b ?t"]
      obtain v where
        lv: "insertRows_loop mmn now rows (?s1\<lparr>maxTs := max b ?t\<rparr>) = (None, sa\<lparr>maxTs := v\<rparr>)" and
        bv: "max b ?t \<le> v" and
        kv: "\<forall>K. max (maxTs st) ?t \<le> K \<and> max b ?t \<le> K \<longrightarrow> max K v = max K (maxTs sa)"
        by auto
      have "insertRows_loop mmn now (row # rows) ?sb =
              insertRows_loop mmn now rows (?s1\<lparr>maxTs := max b ?t\<rparr>)"
        by (rule loop_Cons_insert_eq [where mmn = mmn and now = now, OF Fb gmb ipb]) simp
      with lv have a: "insertRows_loop mmn now (row # rows) ?sb = (None, sa\<lparr>maxTs := v\<rparr>)" by simp
      have c: "\<forall>K. maxTs st \<le> K \<and> b \<le> K \<longrightarrow> max K v = max K (maxTs sa)"
      proof (intro allI impI)
        fix K assume K: "maxTs st \<le> K \<and> b \<le> K"
        then have "max (maxTs st) ?t \<le> max K ?t \<and> max b ?t \<le> max K ?t" by auto
        with kv have "max (max K ?t) v = max (max K ?t) (maxTs sa)" by blast
        moreover have "?t \<le> v" using bv by simp
        moreover have "?t \<le> maxTs sa" using mono by simp
        ultimately show "max K v = max K (maxTs sa)" by (simp add: max_def split: if_splits)
      qed
      from a bv c show ?thesis by auto
    qed
  qed
qed

lemma loop_head_le:
  assumes "insertRows_loop mmn now (row # rows) st = (None, st')"
    and "\<not> Timestamp row < minT (part st)" and "Timestamp row \<noteq> 0"
  shows "Timestamp row \<le> maxTs st'"
proof -
  let ?row1 = "if Timestamp row = 0 then row\<lparr>Timestamp := now (nowCalls st)\<rparr> else row"
  let ?nm = "mmn (Metric row) (Labels row)"
  obtain mt p1 where gm: "getMetric (part st) ?nm = (mt, p1)" by (cases "getMetric (part st) ?nm")
  show ?thesis
  proof (cases "insertPoint mt (DataPoint.truncate ?row1)")
    case (Inl e)
    from loop_Cons_panic [where mmn = mmn and now = now and rows = rows, OF assms(2) gm Inl] assms(1)
    show ?thesis by simp
  next
    case (Inr mt')
    let ?s1 = "st\<lparr>part := p1\<lparr>metrics := (metrics p1)(?nm \<mapsto> mt')\<rparr>,
            maxTs := max (maxTs st) (Timestamp ?row1),
            rowsNum := rowsNum st + 1,
            nowCalls := (if Timestamp row = 0 then nowCalls st + 1 else nowCalls st)\<rparr>"
    from loop_Cons_insert [where mmn = mmn and now = now and rows = rows, OF assms(2) gm Inr] assms(1)
    have "insertRows_loop mmn now rows ?s1 = (None, st')" by simp
    from loop_counts [OF this] assms(3) show ?thesis by simp
  qed
qed

lemma max_shift_arith:
  fixes K v xA x0 y0 :: int
  assumes "\<forall>K'. x0 \<le> K' \<and> y0 \<le> K' \<longrightarrow> max K' v = max K' xA"
    and "y0 \<le> v" and "x0 \<le> xA" and "y0 \<le> xA \<or> y0 \<le> K" and "x0 \<le> K \<or> x0 = y0"
  shows "max K v = max K xA"
proof -
  have "x0 \<le> max K y0 \<and> y0 \<le> max K y0" using assms(5) by auto
  with assms(1) have "max (max K y0) v = max (max K y0) xA" by blast
  with assms(2,4) show ?thesis by (auto simp: max_def split: if_splits)
qed

lemma insertRows_outdated_general:
  assumes inv: "partition_inv m" and o: "once m" and ne: "rows \<noteq> []"
  shows "\<exists>m'. insertRows mmn now None m rows =
                (Inr (filter (\<lambda>r. Timestamp r < minT m) rows), m') \<and>
           (if filter (\<lambda>r. \<not> Timestamp r < minT m) rows = [] then m' = m
            else insertRows mmn now None m (filter (\<lambda>r. \<not> Timestamp r < minT m) rows) =
                   (Inr [], m'))"
proof -
  from inv have ai: "all_series_inv m" and k0: "0 \<le> maxT m" and mk: "minT m \<le> maxT m"
    using o by (simp_all add: partition_inv_def)
  let ?x0 = "Timestamp (rows ! 0)"
  let ?st0 = "\<lparr>part = m, outdatedRows = [], maxTs = ?x0, rowsNum = 0, nowCalls = 0\<rparr>"
  let ?rows' = "filter (\<lambda>r. \<not> Timestamp r < minT m) rows"
  from insertRows_success [OF ne ai, of mmn now] o
  obtain st' where lp: "insertRows_loop mmn now rows ?st0 = (None, st')"
    and eq: "insertRows mmn now None m rows =
       (Inr (outdatedRows st'),
        (part st')\<lparr>numPoints := numPoints (part st') + rowsNum st',
                   maxT := max (maxT (part st')) (maxTs st')\<rparr>)"
    by auto
  from loop_counts [OF lp]
  have out: "outdatedRows st' = filter (\<lambda>r. Timestamp r < minT m) rows"
    and x0le: "?x0 \<le> maxTs st'" by simp_all
  from loop_frame [OF lp] have fr: "maxT (part st') = maxT m" by simp
  from loop_filter [OF lp, of "[]"]
  have lpA: "insertRows_loop mmn now ?rows' ?st0 = (None, st'\<lparr>outdatedRows := []\<rparr>)"
    by simp
  let ?m' = "(part st')\<lparr>numPoints := numPoints (part st') + rowsNum st',
                   maxT := max (maxT (part st')) (maxTs st')\<rparr>"
  have "if ?rows' = [] then ?m' = m
        else insertRows mmn now None m ?rows' = (Inr [], ?m')"
  proof (cases "?rows' = []")
    case True
    with lpA have "st'\<lparr>outdatedRows := []\<rparr> = ?st0" by simp
    then have p: "part st' = m" and n: "rowsNum st' = 0" and x: "maxTs st' = ?x0"
      by (auto dest: arg_cong [where f = part] arg_cong [where f = rowsNum]
                     arg_cong [where f = maxTs])
    from True ne have "Timestamp (rows ! 0) < minT m"
      by (cases rows) (auto split: if_splits)
    with mk have "max (maxT m) ?x0 = maxT m" by simp
    with p n x True show ?thesis by simp
  next
    case False
    let ?y0 = "Timestamp (?rows' ! 0)"
    let ?st0B = "\<lparr>part = m, outdatedRows = [], maxTs = ?y0, rowsNum = 0, nowCalls = 0\<rparr>"
    from loop_maxTs_shift [OF lpA, of ?y0]
    obtain v where
      lv: "insertRows_loop mmn now ?rows' (?st0\<lparr>maxTs := ?y0\<rparr>) =
             (None, st'\<lparr>outdatedRows := [], maxTs := v\<rparr>)" and
      yv: "?y0 \<le> v" and
      kv: "\<forall>K. ?x0 \<le> K \<and> ?y0 \<le> K \<longrightarrow> max K v = max K (maxTs st')"
      by auto
    have lpB: "insertRows_loop mmn now ?rows' ?st0B = (None, st'\<lparr>outdatedRows := [], maxTs := v\<rparr>)"
      using lv by simp
    have eqB: "insertRows mmn now None m ?rows' =
        (Inr [], (part st')\<lparr>numPoints := numPoints (part st') + rowsNum st',
                   maxT := max (maxT (part st')) v\<rparr>)"
      using False o lpB by (simp add: insertRows_def Let_def max_def)
    obtain h t where ht: "?rows' = h # t" using False by (cases ?rows') auto
    have "h \<in> set ?rows'" using ht by simp
    then have hn: "\<not> Timestamp h < minT (part ?st0)" by simp
    have y0: "?y0 = Timestamp h" using ht by simp
    have iv: "?y0 \<le> maxTs st' \<or> ?y0 \<le> maxT m"
    proof (cases "Timestamp h = 0")
      case True
      with k0 y0 show ?thesis by simp
    next
      case nz: False
      from lpA ht have "insertRows_loop mmn now (h # t) ?st0 = (None, st'\<lparr>outdatedRows := []\<rparr>)"
        by simp
      from loop_head_le [OF this hn nz] y0 show ?thesis by simp
    qed
    have v5: "?x0 \<le> maxT m \<or> ?x0 = ?y0"
    proof (cases "Timestamp (rows ! 0) < minT m")
      case True
      with mk show ?thesis by simp
    next
      case nout: False
      with ne have "?rows' ! 0 = rows ! 0" by (cases rows) auto
      then show ?thesis by simp
    qed
    from max_shift_arith [OF kv yv x0le iv v5]
    have "max (maxT m) v = max (maxT m) (maxTs st')" .
    with eqB fr False show ?thesis by simp
  qed
  with eq out show ?thesis by simp
qed

lemma example_partition_eval:
  "snd (insertRows metricNameOnly clock0 None newMemoryPartition [mkRow ''metric1'' 2]) =
     \<lparr>numPoints = 1, minT = 2, maxT = 2,
      metrics = Map.empty(''metric1'' \<mapsto>
        \<lparr>name = ''metric1'', msize = 1, minTimestamp = 2, maxTimestamp = 2,
         points = [\<lparr>Timestamp = 2, Value = ()\<rparr>], outOfOrderPoints = []\<rparr>),
      once = True\<rparr>"
  by (simp add: insertRows_def newMemoryPartition_def mkRow_def metricNameOnly_def getMetric_def
        insertPoint_def Let_def DataPoint.truncate_def)

text \<open>
  Claim C4, as amended. On a partition the code can build and whose \<^verbatim>\<open>minT\<close> is latched,
  a call of \<^verbatim>\<open>insertRows\<close> with a non-empty batch whose WAL append succeeds returns, with a
  nil error, exactly the rows whose timestamp is strictly less than \<^verbatim>\<open>minT\<close>, in batch
  order. The outdated rows are not inserted: the partition after the call is the one the
  call leaves for the batch without its outdated rows, and it is the partition before the
  call when every row is outdated (no series, \<^verbatim>\<open>numPoints\<close> and \<^verbatim>\<open>maxT\<close> unchanged).
\<close>

theorem insertRows_returns_outdated_rows:
  assumes "reachable mmn m" and "once m" and "rows \<noteq> []"
  shows "\<exists>m'. insertRows mmn now None m rows =
                (Inr (filter (\<lambda>r. Timestamp r < minT m) rows), m') \<and>
           (if filter (\<lambda>r. \<not> Timestamp r < minT m) rows = [] then m' = m
            else insertRows mmn now None m (filter (\<lambda>r. \<not> Timestamp r < minT m) rows) =
                   (Inr [], m'))"
  using insertRows_outdated_general [OF reachable_partition_inv [OF assms(1)] assms(2,3)] .

theorem insertRows_returns_outdated_rows_witness:
  "reachable metricNameOnly
     (snd (insertRows metricNameOnly clock0 None newMemoryPartition [mkRow ''metric1'' 2])) \<and>
   once (snd (insertRows metricNameOnly clock0 None newMemoryPartition [mkRow ''metric1'' 2])) \<and>
   [mkRow ''metric1'' 1, mkRow ''metric1'' 3] \<noteq> [] \<and>
   insertRows metricNameOnly clock0 None
     (snd (insertRows metricNameOnly clock0 None newMemoryPartition [mkRow ''metric1'' 2]))
     [mkRow ''metric1'' 1, mkRow ''metric1'' 3] =
     (Inr [mkRow ''metric1'' 1],
      snd (insertRows metricNameOnly clock0 None
        (snd (insertRows metricNameOnly clock0 None newMemoryPartition [mkRow ''metric1'' 2]))
        [mkRow ''metric1'' 3]))"
proof -
  let ?P = "snd (insertRows metricNameOnly clock0 None newMemoryPartition [mkRow ''metric1'' 2])"
  have r: "reachable metricNameOnly ?P"
    by (rule reachable_insertRows [OF reachable_new])
  have o: "once ?P" by (simp add: example_partition_eval)
  have ne: "[mkRow ''metric1'' 1, mkRow ''metric1'' 3] \<noteq> []" by simp
  have mt: "minT ?P = 2" by (simp add: example_partition_eval)
  have ts: "\<And>nm t. Timestamp (mkRow nm t) = t" by (simp add: mkRow_def)
  from insertRows_returns_outdated_rows [OF r o ne, of clock0]
  show ?thesis using r o by (auto simp: mt ts)
qed

text \<open>
  The claim as stated fails when the WAL append fails: on a partition whose \<^verbatim>\<open>minT\<close> is
  latched at 2, the batch with the single row of timestamp 1 and a failing WAL gives the
  error, not the outdated row with a nil error.
\<close>

theorem insertRows_wal_failure_counterexample:
  "once (snd (insertRows metricNameOnly clock0 None newMemoryPartition [mkRow ''metric1'' 2])) \<and>
   fst (insertRows metricNameOnly clock0 (Some ''disk full'')
     (snd (insertRows metricNameOnly clock0 None newMemoryPartition [mkRow ''metric1'' 2]))
     [mkRow ''metric1'' 1]) = Inl (WalWriteFailed ''disk full'')"
  by (simp add: example_partition_eval insertRows_wal_failed)

theorem insertRows_size_increase_witness:
  "insertRows metricNameOnly clock0 None
     (snd (insertRows metricNameOnly clock0 None newMemoryPartition [mkRow ''metric1'' 2]))
     [mkRow ''metric1'' 1, mkRow ''metric1'' 3, mkRow ''metric1'' 3, mkRow ''metric1'' 2] =
   (Inr [mkRow ''metric1'' 1],
     \<lparr>numPoints = 4, minT = 2, maxT = 3,
      metrics = Map.empty(''metric1'' \<mapsto>
        \<lparr>name = ''metric1'', msize = 2, minTimestamp = 2, maxTimestamp = 3,
         points = [\<lparr>Timestamp = 2, Value = ()\<rparr>, \<lparr>Timestamp = 3, Value = ()\<rparr>],
         outOfOrderPoints = [\<lparr>Timestamp = 3, Value = ()\<rparr>, \<lparr>Timestamp = 2, Value = ()\<rparr>]\<rparr>),
      once = True\<rparr>) \<and>
   mp_size \<lparr>numPoints = 4, minT = 2, maxT = 3,
      metrics = Map.empty(''metric1'' \<mapsto>
        \<lparr>name = ''metric1'', msize = 2, minTimestamp = 2, maxTimestamp = 3,
         points = [\<lparr>Timestamp = 2, Value = ()\<rparr>, \<lparr>Timestamp = 3, Value = ()\<rparr>],
         outOfOrderPoints = [\<lparr>Timestamp = 3, Value = ()\<rparr>, \<lparr>Timestamp = 2, Value = ()\<rparr>]\<rparr>),
      once = True\<rparr> =
   mp_size (snd (insertRows metricNameOnly clock0 None newMemoryPartition [mkRow ''metric1'' 2]))
     + 4 - 1"
proof -
  have ev: "insertRows metricNameOnly clock0 None
     (snd (insertRows metricNameOnly clock0 None newMemoryPartition [mkRow ''metric1'' 2]))
     [mkRow ''metric1'' 1, mkRow ''metric1'' 3, mkRow ''metric1'' 3, mkRow ''metric1'' 2] =
   (Inr [mkRow ''metric1'' 1],
     \<lparr>numPoints = 4, minT = 2, maxT = 3,
      metrics = Map.empty(''metric1'' \<mapsto>
        \<lparr>name = ''metric1'', msize = 2, minTimestamp = 2, maxTimestamp = 3,
         points = [\<lparr>Timestamp = 2, Value = ()\<rparr>, \<lparr>Timestamp = 3, Value = ()\<rparr>],
         outOfOrderPoints = [\<lparr>Timestamp = 3, Value = ()\<rparr>, \<lparr>Timestamp = 2, Value = ()\<rparr>]\<rparr>),
      once = True\<rparr>)"
    unfolding example_partition_eval
    by (simp add: insertRows_def mkRow_def metricNameOnly_def getMetric_def
        insertPoint_def Let_def DataPoint.truncate_def)
  from insertRows_size_increase [OF ev] ev show ?thesis by simp
qed

theorem minT_latched_by_first_successful_batch_witness:
  "\<not> once (newMemoryPartition :: unit memoryPartition) \<and>
   call_wal \<lparr>call_rows = [mkRow ''metric1'' (-5)], call_wal = Some ''disk full'',
             call_now = clock0\<rparr> = Some ''disk full'' \<and>
   call_rows \<lparr>call_rows = ([] :: unit Row list), call_wal = None, call_now = clock0\<rparr> = [] \<and>
   call_rows \<lparr>call_rows = [mkRow ''metric1'' 5, mkRow ''metric1'' 0, mkRow ''metric1'' 7],
              call_wal = None, call_now = clock0\<rparr> \<noteq> [] \<and>
   call_wal \<lparr>call_rows = [mkRow ''metric1'' 5, mkRow ''metric1'' 0, mkRow ''metric1'' 7],
              call_wal = None, call_now = clock0\<rparr> = None \<and>
   mp_minTimestamp (insertRows_calls metricNameOnly newMemoryPartition
     [\<lparr>call_rows = [mkRow ''metric1'' (-5)], call_wal = Some ''disk full'', call_now = clock0\<rparr>,
      \<lparr>call_rows = [], call_wal = None, call_now = clock0\<rparr>,
      \<lparr>call_rows = [mkRow ''metric1'' 5, mkRow ''metric1'' 0, mkRow ''metric1'' 7],
       call_wal = None, call_now = clock0\<rparr>,
      \<lparr>call_rows = [mkRow ''metric1'' (-3)], call_wal = None, call_now = clock0\<rparr>]) = 0"
proof -
  have a: "\<not> once (newMemoryPartition :: unit memoryPartition)"
    by (simp add: newMemoryPartition_def)
  have b: "\<forall>c\<in>set [\<lparr>call_rows = [mkRow ''metric1'' (-5)], call_wal = Some ''disk full'', call_now = clock0\<rparr>,
              \<lparr>call_rows = [], call_wal = None, call_now = clock0\<rparr>].
      call_rows c = [] \<or> call_wal c \<noteq> None" by simp
  have c: "call_rows \<lparr>call_rows = [mkRow ''metric1'' 5, mkRow ''metric1'' 0, mkRow ''metric1'' 7],
              call_wal = None, call_now = clock0\<rparr> \<noteq> []" by simp
  have d: "call_wal \<lparr>call_rows = [mkRow ''metric1'' 5, mkRow ''metric1'' 0, mkRow ''metric1'' 7],
              call_wal = None, call_now = clock0\<rparr> = None" by simp
  from minT_latched_by_first_successful_batch [OF a b c d, of metricNameOnly
     "[\<lparr>call_rows = [mkRow ''metric1'' (-3)], call_wal = None, call_now = clock0\<rparr>]"]
  have "mp_minTimestamp (insertRows_calls metricNameOnly newMemoryPartition
     [\<lparr>call_rows = [mkRow ''metric1'' (-5)], call_wal = Some ''disk full'', call_now = clock0\<rparr>,
      \<lparr>call_rows = [], call_wal = None, call_now = clock0\<rparr>,
      \<lparr>call_rows = [mkRow ''metric1'' 5, mkRow ''metric1'' 0, mkRow ''metric1'' 7],
       call_wal = None, call_now = clock0\<rparr>,
      \<lparr>call_rows = [mkRow ''metric1'' (-3)], call_wal = None, call_now = clock0\<rparr>]) = 0"
    by (simp add: mkRow_def)
  with a c d show ?thesis by simp
qed

lemma selectPoints_fresh:
  "selectPoints \<lparr>name = nm, msize = 0, minTimestamp = 0, maxTimestamp = 0,
                  points = [], outOfOrderPoints = []\<rparr> start end' = Inr []"
  by (simp add: selectPoints_def Search_def Search_loop.simps slice_def)

lemma selectDataPoints_frame:
  assumes "selectDataPoints mmn m metric labels start end' = (r, m')"
  shows "minT m' = minT m \<and> maxT m' = maxT m \<and> numPoints m' = numPoints m \<and> once m' = once m \<and>
     (\<forall>k mt. metrics m k = Some mt \<longrightarrow> metrics m' k = Some mt) \<and>
     (metrics m (mmn metric labels) \<noteq> None \<longrightarrow> m' = m) \<and>
     (metrics m (mmn metric labels) = None \<longrightarrow>
        r = Inr [] \<and>
        m' = m\<lparr>metrics := (metrics m)(mmn metric labels \<mapsto>
               \<lparr>name = mmn metric labels, msize = 0, minTimestamp = 0, maxTimestamp = 0,
                points = [], outOfOrderPoints = []\<rparr>)\<rparr>)"
proof (cases "metrics m (mmn metric labels)")
  case None
  from getMetric_absent [OF None] assms
  have "r = Inr []" and "m' = m\<lparr>metrics := (metrics m)(mmn metric labels \<mapsto>
               \<lparr>name = mmn metric labels, msize = 0, minTimestamp = 0, maxTimestamp = 0,
                points = [], outOfOrderPoints = []\<rparr>)\<rparr>"
    by (simp_all add: selectDataPoints_def selectPoints_fresh)
  with None show ?thesis by auto
next
  case (Some mt)
  from getMetric_present [OF Some] assms
  have "r = selectPoints mt start end'" and "m' = m"
    by (simp_all add: selectDataPoints_def)
  with Some show ?thesis by simp
qed

lemma selectDataPoints_returns:
  assumes "reachable mmn m" and "start \<le> end'"
  shows "\<exists>pts m'. selectDataPoints mmn m metric labels start end' = (Inr pts, m')"
proof -
  obtain mt m' where gm: "getMetric m (mmn metric labels) = (mt, m')"
    by (cases "getMetric m (mmn metric labels)")
  from reachable_partition_inv [OF assms(1)] have "all_series_inv m"
    by (simp add: partition_inv_def)
  from getMetric_series_inv [OF this gm] have "series_inv mt" by simp
  from selectPoints_returns [OF this assms(2)] gm show ?thesis
    by (auto simp: selectDataPoints_def)
qed

text \<open>
  Claim C10 fails on the code for one kind of input. The partition holds the series
  \<open>metric1\<close> with the in-order points 1, 2, 3, 4, 5; \<^verbatim>\<open>selectDataPoints\<close> with
  \<open>start = 4\<close> and \<open>end = 2\<close> does not return a nil error: the slice expression of
  \<^verbatim>\<open>selectPoints\<close> panics. The frame part of the claim holds for every call
  (\<open>selectDataPoints_frame\<close>), and for \<open>start \<le> end\<close> the call returns
  (\<open>selectDataPoints_returns\<close>).
\<close>

theorem selectDataPoints_reversed_range_panics:
  "fst (selectDataPoints metricNameOnly
     (snd (insertRows metricNameOnly clock0 None newMemoryPartition
        [mkRow ''metric1'' 1, mkRow ''metric1'' 2, mkRow ''metric1'' 3,
         mkRow ''metric1'' 4, mkRow ''metric1'' 5]))
     ''metric1'' [] 4 2) = Inl SliceBoundsOutOfRange"
  by (simp add: selectDataPoints_def insertRows_def newMemoryPartition_def mkRow_def
        metricNameOnly_def getMetric_def insertPoint_def Let_def DataPoint.truncate_def
        selectPoints_def Search_def Search_loop.simps slice_def point_at_def)

section \<open>Results on partitionList\<close>

lemma path_append:
  "path h p (xs @ ys) q \<longleftrightarrow> (\<exists>m. path h p xs m \<and> path h m ys q)"
  by (induction xs arbitrary: p) auto

lemma path_bound: "path h p rs q \<Longrightarrow> \<forall>r\<in>set rs. r < length h"
  by (induction rs arbitrary: p) auto

lemma path_store_append:
  "path h p rs q \<Longrightarrow> path (h @ ns) p rs q"
  by (induction rs arbitrary: p) (auto simp: nth_append)

lemma path_update:
  "r \<notin> set rs \<Longrightarrow> path (h[r := n]) p rs q \<longleftrightarrow> path h p rs q"
  by (induction rs arbitrary: p) auto

lemma chain_unique:
  "chain h p xs \<Longrightarrow> chain h p ys \<Longrightarrow> xs = ys"
  unfolding chain_def
proof (induction xs arbitrary: p ys)
  case Nil
  then show ?case by (cases ys) auto
next
  case (Cons x xs)
  then show ?case by (cases ys) auto
qed

lemma chain_not_in_tail:
  assumes "chain h (Some r) (r # rs)"
  shows "r \<notin> set rs"
proof
  assume "r \<in> set rs"
  then obtain as bs where rs: "rs = as @ r # bs" by (auto simp: in_set_conv_decomp)
  from assms have c1: "chain h (nxt (h ! r)) rs" by (simp add: chain_def)
  with rs have "path h (nxt (h ! r)) (as @ r # bs) None" by (simp add: chain_def)
  then obtain m where "path h m (r # bs) None" by (auto simp: path_append)
  then have c2: "chain h (nxt (h ! r)) bs" by (simp add: chain_def)
  from chain_unique [OF c1 c2] rs show False by simp
qed

lemma chain_distinct: "chain h p rs \<Longrightarrow> distinct rs"
proof (induction rs arbitrary: p)
  case Nil
  show ?case by simp
next
  case (Cons r rs)
  then have p: "p = Some r" and c: "chain h (nxt (h ! r)) rs" by (simp_all add: chain_def)
  from Cons.prems p have "r \<notin> set rs" using chain_not_in_tail by simp
  with Cons.IH [OF c] show ?case by simp
qed

lemma remove_loop_scan:
  assumes "path (store w) (iter_next w it) xs q"
    and "\<forall>x\<in>set xs. \<not> samePartitions (node_value w x) target"
  shows "remove_loop target prev it w =
           remove_loop target (if xs = [] then prev else Some (last xs))
             (if xs = [] then it else At (Some (last xs))) w \<and>
         iter_next w (if xs = [] then it else At (Some (last xs))) = q"
  using assms
proof (induction xs arbitrary: prev it)
  case Nil
  then show ?case by simp
next
  case (Cons x xs)
  from Cons.prems(1) have nx: "iter_next w it = Some x"
    and pa: "path (store w) (iter_next w (At (Some x))) xs q"
    by (simp_all add: getNext_def)
  from Cons.prems(2) have nm: "\<not> samePartitions (node_value w x) target"
    and rest: "\<forall>y\<in>set xs. \<not> samePartitions (node_value w y) target" by simp_all
  have step: "remove_loop target prev it w = remove_loop target (Some x) (At (Some x)) w"
    using nx nm by (subst remove_loop.simps) simp
  from Cons.IH [OF pa rest, of "Some x"] step
  show ?case by (cases "xs = []") simp_all
qed

lemma remove_partition_not_found:
  assumes "list_nodes w rs"
    and "\<forall>x\<in>set rs. \<not> samePartitions (node_value w x) target"
  shows "remove_partition w target =
           Some (Some (if rs = [] then EmptyPartition else PartitionNotFound), w)"
proof (cases "rs = []")
  case True
  with assms(1) show ?thesis by (simp add: list_nodes_def remove_partition_def size_impl_def)
next
  case False
  from assms(1) have pa: "path (store w) (iter_next w (newIterator w)) rs None"
    and sz: "\<not> size_impl w \<le> 0"
    using False by (simp_all add: list_nodes_def chain_def newIterator_def size_impl_def)
  from remove_loop_scan [OF pa assms(2), of None] False
  have a: "remove_loop target None (newIterator w) w =
             remove_loop target (Some (last rs)) (At (Some (last rs))) w"
    and b: "iter_next w (At (Some (last rs))) = None" by simp_all
  have "remove_loop target (Some (last rs)) (At (Some (last rs))) w = Some (Some PartitionNotFound, w)"
    using b by (subst remove_loop.simps) simp
  with a sz False show ?thesis by (simp add: remove_partition_def)
qed

lemma remove_partition_found:
  assumes "list_nodes w (xs @ r # ys)"
    and "\<forall>x\<in>set xs. \<not> samePartitions (node_value w x) target"
    and "samePartitions (node_value w r) target"
  shows "remove_partition w target =
           Some (remove_current w (if xs = [] then None else Some (last xs)) r)"
proof -
  from assms(1) have "path (store w) (head (lst w)) (xs @ r # ys) None"
    and sz: "\<not> size_impl w \<le> 0"
    by (simp_all add: list_nodes_def chain_def size_impl_def)
  then have pa: "path (store w) (iter_next w (newIterator w)) xs (Some r)"
    by (auto simp: path_append newIterator_def)
  let ?prev = "if xs = [] then None else Some (last xs)"
  let ?it = "if xs = [] then newIterator w else At (Some (last xs))"
  from remove_loop_scan [OF pa assms(2), of None]
  have a: "remove_loop target None (newIterator w) w = remove_loop target ?prev ?it w"
    and b: "iter_next w ?it = Some r" by simp_all
  have "remove_loop target ?prev ?it w = Some (remove_current w ?prev r)"
    using b assms(3) by (subst remove_loop.simps) simp
  with a sz show ?thesis by (simp add: remove_partition_def)
qed

lemma list_nodes_split:
  assumes "list_nodes w (xs @ r # ys)"
  shows "path (store w) (head (lst w)) xs (Some r)" and "r < length (store w)"
    and "chain (store w) (nxt (store w ! r)) ys" and "distinct (xs @ r # ys)"
    and "numPartitions (lst w) = int (length xs) + 1 + int (length ys)"
proof -
  from assms have c: "chain (store w) (head (lst w)) (xs @ r # ys)"
    and n: "numPartitions (lst w) = int (length (xs @ r # ys))"
    by (simp_all add: list_nodes_def)
  from c show "path (store w) (head (lst w)) xs (Some r)" and "r < length (store w)"
    and "chain (store w) (nxt (store w ! r)) ys"
    by (auto simp: chain_def path_append)
  from c show "distinct (xs @ r # ys)" by (rule chain_distinct)
  from n show "numPartitions (lst w) = int (length xs) + 1 + int (length ys)" by simp
qed

lemma remove_current_head:
  assumes "list_nodes w (r # ys)"
  shows "remove_current w None r =
     ((case p_clean (node_value w r) of None \<Rightarrow> None | Some e \<Rightarrow> Some (CleanFailed e)),
      w\<lparr>lst := (lst w)\<lparr>head := nxt (store w ! r), numPartitions := numPartitions (lst w) - 1\<rparr>,
        cleaned := cleaned w @ [node_value w r]\<rparr>)"
  by (simp add: remove_current_def getNext_def setHead_def add_numPartitions_def node_value_def
        Let_def split: option.splits)

lemma val_update_nxt:
  "x < length h \<Longrightarrow> val (h[pr := (h ! pr)\<lparr>nxt := n\<rparr>] ! x) = val (h ! x)"
  by (cases "x = pr") simp_all

lemma remove_current_tail:
  assumes "nxt (store w ! r) = None" and "r < length (store w)"
  shows "remove_current w (Some pr) r =
     ((case p_clean (node_value w r) of None \<Rightarrow> None | Some e \<Rightarrow> Some (CleanFailed e)),
      w\<lparr>store := (store w)[pr := (store w ! pr)\<lparr>nxt := None\<rparr>],
        lst := (lst w)\<lparr>tail := Some pr, numPartitions := numPartitions (lst w) - 1\<rparr>,
        cleaned := cleaned w @ [node_value w r]\<rparr>)"
  using assms
  by (simp add: remove_current_def getNext_def setHead_def setTail_def setNext_def
        add_numPartitions_def node_value_def Let_def val_update_nxt split: option.splits)

lemma remove_current_middle:
  assumes "nxt (store w ! r) = Some k" and "r < length (store w)"
  shows "remove_current w (Some pr) r =
     ((case p_clean (node_value w r) of None \<Rightarrow> None | Some e \<Rightarrow> Some (CleanFailed e)),
      w\<lparr>store := (store w)[pr := (store w ! pr)\<lparr>nxt := Some k\<rparr>],
        lst := (lst w)\<lparr>numPartitions := numPartitions (lst w) - 1\<rparr>,
        cleaned := cleaned w @ [node_value w r]\<rparr>)"
  using assms
  by (simp add: remove_current_def getNext_def setHead_def setTail_def setNext_def
        add_numPartitions_def node_value_def Let_def val_update_nxt split: option.splits)

lemma remove_current_effect:
  assumes ln: "list_nodes w (xs @ r # ys)"
    and res: "remove_current w (if xs = [] then None else Some (last xs)) r = (err, w')"
  shows "err = (case p_clean (node_value w r) of None \<Rightarrow> None | Some e \<Rightarrow> Some (CleanFailed e)) \<and>
         list_nodes w' (xs @ ys) \<and>
         length (store w') = length (store w) \<and>
         (\<forall>x < length (store w). val (store w' ! x) = val (store w ! x)) \<and>
         cleaned w' = cleaned w @ [node_value w r] \<and>
         (xs = [] \<longrightarrow> head (lst w') = nxt (store w ! r)) \<and>
         (xs \<noteq> [] \<longrightarrow> head (lst w') = head (lst w)) \<and>
         (xs \<noteq> [] \<and> ys = [] \<longrightarrow> tail (lst w') = Some (last xs)) \<and>
         (ys \<noteq> [] \<longrightarrow> tail (lst w') = tail (lst w))"
proof -
  note sp = list_nodes_split [OF ln]
  let ?h = "store w"
  show ?thesis
  proof (cases "xs = []")
    case True
    with ln have "list_nodes w (r # ys)" by simp
    from remove_current_head [OF this] res True
    have e: "err = (case p_clean (node_value w r) of None \<Rightarrow> None | Some e \<Rightarrow> Some (CleanFailed e))"
      and w': "w' = w\<lparr>lst := (lst w)\<lparr>head := nxt (?h ! r), numPartitions := numPartitions (lst w) - 1\<rparr>,
        cleaned := cleaned w @ [node_value w r]\<rparr>" by simp_all
    have "list_nodes w' (xs @ ys)"
      using sp(3,5) True by (simp add: w' list_nodes_def)
    with e True show ?thesis by (simp add: w')
  next
    case False
    then obtain xs' pr where xs: "xs = xs' @ [pr]" by (cases xs rule: rev_cases) auto
    from sp(1) xs have p1: "path ?h (head (lst w)) xs' (Some pr)" and prl: "pr < length ?h"
      and prn: "nxt (?h ! pr) = Some r"
      by (auto simp: path_append)
    from sp(4) xs have d1: "pr \<notin> set xs'" and d2: "pr \<notin> set ys" and d3: "pr \<noteq> r" by auto
    show ?thesis
    proof (cases "nxt (?h ! r)")
      case None
      let ?h' = "?h[pr := (?h ! pr)\<lparr>nxt := None\<rparr>]"
      from sp(3) None have ys: "ys = []" by (cases ys) (simp_all add: chain_def)
      from remove_current_tail [OF None sp(2), of pr] res xs
      have e: "err = (case p_clean (node_value w r) of None \<Rightarrow> None | Some e \<Rightarrow> Some (CleanFailed e))"
        and w': "w' = w\<lparr>store := ?h',
          lst := (lst w)\<lparr>tail := Some pr, numPartitions := numPartitions (lst w) - 1\<rparr>,
          cleaned := cleaned w @ [node_value w r]\<rparr>" by simp_all
      have "path ?h' (head (lst w)) xs' (Some pr)" using p1 d1 by (simp add: path_update)
      moreover have "path ?h' (Some pr) [pr] None" using prl by simp
      ultimately have "chain ?h' (head (lst w)) (xs' @ [pr])"
        unfolding chain_def path_append by blast
      then have l: "list_nodes w' (xs @ ys)"
        using sp(5) xs ys by (simp add: w' list_nodes_def)
      have v: "\<forall>x < length ?h. val (?h' ! x) = val (?h ! x)"
        by (simp add: val_update_nxt)
      with e l xs ys show ?thesis by (simp add: w')
    next
      case (Some k)
      let ?h' = "?h[pr := (?h ! pr)\<lparr>nxt := Some k\<rparr>]"
      from sp(3) Some have ys: "ys \<noteq> []" by (cases ys) (simp_all add: chain_def)
      from remove_current_middle [OF Some sp(2), of pr] res xs
      have e: "err = (case p_clean (node_value w r) of None \<Rightarrow> None | Some e \<Rightarrow> Some (CleanFailed e))"
        and w': "w' = w\<lparr>store := ?h',
          lst := (lst w)\<lparr>numPartitions := numPartitions (lst w) - 1\<rparr>,
          cleaned := cleaned w @ [node_value w r]\<rparr>" by simp_all
      have a: "path ?h' (head (lst w)) xs' (Some pr)" using p1 d1 by (simp add: path_update)
      have "path ?h' (Some k) ys None" using sp(3) Some d2 by (simp add: path_update chain_def)
      then have b: "path ?h' (Some pr) (pr # ys) None" using prl by simp
      from a b have "path ?h' (head (lst w)) (xs' @ pr # ys) None"
        unfolding path_append by blast
      then have l: "list_nodes w' (xs @ ys)"
        using sp(5) xs by (simp add: w' list_nodes_def chain_def)
      have v: "\<forall>x < length ?h. val (?h' ! x) = val (?h ! x)"
        by (simp add: val_update_nxt)
      with e l xs ys show ?thesis by (simp add: w')
    qed
  qed
qed

text \<open>
  Claim C7, as amended. On a well-formed list (the nodes reachable from \<^verbatim>\<open>head\<close> end at
  nil and \<^verbatim>\<open>size()\<close> is their number) \<^verbatim>\<open>remove(p)\<close> returns. When no node holds a
  partition whose \<^verbatim>\<open>minTimestamp\<close> equals that of \<open>p\<close> (in particular when the list is
  empty) it returns an error and the list is unchanged. Otherwise the first matching node
  from the head is unlinked: the remaining nodes are reachable from \<^verbatim>\<open>head\<close> in the same
  order with the same partitions, \<^verbatim>\<open>size()\<close> is one less, \<^verbatim>\<open>head\<close> advances when the
  node was the head, \<^verbatim>\<open>tail\<close> moves back to the previous node when the node was the last
  one and not the head, \<^verbatim>\<open>tail\<close> stays when the node was not the last one, and
  \<^verbatim>\<open>clean()\<close> is called exactly once, on that node's partition; the call returns an error
  exactly when this \<^verbatim>\<open>clean()\<close> returns one.
\<close>

theorem remove_partition_spec:
  assumes "list_nodes w rs"
  shows "((\<forall>x\<in>set rs. \<not> samePartitions (node_value w x) target) \<longrightarrow>
            remove_partition w target =
              Some (Some (if rs = [] then EmptyPartition else PartitionNotFound), w)) \<and>
         (\<forall>xs r ys.
            rs = xs @ r # ys \<and> (\<forall>x\<in>set xs. \<not> samePartitions (node_value w x) target) \<and>
            samePartitions (node_value w r) target \<longrightarrow>
            (\<exists>w'. remove_partition w target =
                     Some (map_option CleanFailed (p_clean (node_value w r)), w') \<and>
                   list_nodes w' (xs @ ys) \<and>
                   (\<forall>x\<in>set (xs @ ys). node_value w' x = node_value w x) \<and>
                   size_impl w' = size_impl w - 1 \<and>
                   cleaned w' = cleaned w @ [node_value w r] \<and>
                   (xs = [] \<longrightarrow> head (lst w') = getNext w r) \<and>
                   (xs \<noteq> [] \<longrightarrow> head (lst w') = head (lst w)) \<and>
                   (xs \<noteq> [] \<and> ys = [] \<longrightarrow> tail (lst w') = Some (last xs)) \<and>
                   (ys \<noteq> [] \<longrightarrow> tail (lst w') = tail (lst w))))"
proof (intro conjI impI allI)
  assume "\<forall>x\<in>set rs. \<not> samePartitions (node_value w x) target"
  with assms show "remove_partition w target =
      Some (Some (if rs = [] then EmptyPartition else PartitionNotFound), w)"
    by (rule remove_partition_not_found)
next
  fix xs r ys
  assume a: "rs = xs @ r # ys \<and> (\<forall>x\<in>set xs. \<not> samePartitions (node_value w x) target) \<and>
            samePartitions (node_value w r) target"
  with assms have ln: "list_nodes w (xs @ r # ys)" by simp
  obtain err w' where rc: "remove_current w (if xs = [] then None else Some (last xs)) r = (err, w')"
    by (cases "remove_current w (if xs = [] then None else Some (last xs)) r")
  from remove_partition_found [OF ln] a rc
  have rp: "remove_partition w target = Some (err, w')" by simp
  note ef = remove_current_effect [OF ln rc]
  from ef have e: "err = map_option CleanFailed (p_clean (node_value w r))"
    by (simp split: option.splits)
  from ln have "\<forall>x\<in>set (xs @ r # ys). x < length (store w)"
    by (auto simp: list_nodes_def chain_def dest: path_bound)
  with ef have v: "\<forall>x\<in>set (xs @ ys). node_value w' x = node_value w x"
    by (auto simp: node_value_def)
  from ef ln have sz: "size_impl w' = size_impl w - 1"
    by (simp add: list_nodes_def size_impl_def)
  from rp e ef v sz
  show "\<exists>w'. remove_partition w target =
                     Some (map_option CleanFailed (p_clean (node_value w r)), w') \<and>
                   list_nodes w' (xs @ ys) \<and>
                   (\<forall>x\<in>set (xs @ ys). node_value w' x = node_value w x) \<and>
                   size_impl w' = size_impl w - 1 \<and>
                   cleaned w' = cleaned w @ [node_value w r] \<and>
                   (xs = [] \<longrightarrow> head (lst w') = getNext w r) \<and>
                   (xs \<noteq> [] \<longrightarrow> head (lst w') = head (lst w)) \<and>
                   (xs \<noteq> [] \<and> ys = [] \<longrightarrow> tail (lst w') = Some (last xs)) \<and>
                   (ys \<noteq> [] \<longrightarrow> tail (lst w') = tail (lst w))"
    by (simp add: getNext_def)
qed

lemma three_partitions_eval:
  "insert_partition (insert_partition (insert_partition newPartitionList (fakePartition 3))
      (fakePartition 2)) (fakePartition 1) =
   \<lparr>store = [\<lparr>val = fakePartition 3, nxt = None\<rparr>, \<lparr>val = fakePartition 2, nxt = Some 0\<rparr>,
             \<lparr>val = fakePartition 1, nxt = Some 1\<rparr>],
    lst = \<lparr>numPartitions = 3, head = Some 2, tail = None\<rparr>, cleaned = []\<rparr>"
  by (simp add: insert_partition_def newPartitionList_def new_node_def setHead_def setNext_def
        add_numPartitions_def)

theorem remove_partition_spec_witness:
  "list_nodes (insert_partition (insert_partition (insert_partition newPartitionList
       (fakePartition 3)) (fakePartition 2)) (fakePartition 1)) [2, 1, 0] \<and>
   remove_partition (insert_partition (insert_partition (insert_partition newPartitionList
       (fakePartition 3)) (fakePartition 2)) (fakePartition 1)) (fakePartition 2) =
     Some (None,
       \<lparr>store = [\<lparr>val = fakePartition 3, nxt = None\<rparr>, \<lparr>val = fakePartition 2, nxt = Some 0\<rparr>,
                 \<lparr>val = fakePartition 1, nxt = Some 0\<rparr>],
        lst = \<lparr>numPartitions = 2, head = Some 2, tail = None\<rparr>,
        cleaned = [fakePartition 2]\<rparr>) \<and>
   list_nodes
       \<lparr>store = [\<lparr>val = fakePartition 3, nxt = None\<rparr>, \<lparr>val = fakePartition 2, nxt = Some 0\<rparr>,
                 \<lparr>val = fakePartition 1, nxt = Some 0\<rparr>],
        lst = \<lparr>numPartitions = 2, head = Some 2, tail = None\<rparr>,
        cleaned = [fakePartition 2]\<rparr> [2, 0]"
proof -
  let ?W = "insert_partition (insert_partition (insert_partition newPartitionList
       (fakePartition 3)) (fakePartition 2)) (fakePartition 1)"
  have ln: "list_nodes ?W [2, 1, 0]"
    by (simp add: three_partitions_eval list_nodes_def chain_def)
  have ev: "remove_partition ?W (fakePartition 2) =
     Some (None,
       \<lparr>store = [\<lparr>val = fakePartition 3, nxt = None\<rparr>, \<lparr>val = fakePartition 2, nxt = Some 0\<rparr>,
                 \<lparr>val = fakePartition 1, nxt = Some 0\<rparr>],
        lst = \<lparr>numPartitions = 2, head = Some 2, tail = None\<rparr>,
        cleaned = [fakePartition 2]\<rparr>)"
    unfolding three_partitions_eval
    by (simp add: remove_partition_def size_impl_def newIterator_def remove_loop.simps
          getNext_def node_value_def samePartitions_def fakePartition_def remove_current_def
          setNext_def setHead_def setTail_def add_numPartitions_def Let_def)
  have nm: "\<forall>x\<in>set [2]. \<not> samePartitions (node_value ?W x) (fakePartition 2)"
    unfolding three_partitions_eval
    by (simp add: node_value_def samePartitions_def fakePartition_def)
  have m: "samePartitions (node_value ?W 1) (fakePartition 2)"
    unfolding three_partitions_eval
    by (simp add: node_value_def samePartitions_def fakePartition_def)
  from remove_partition_spec [OF ln, of "fakePartition 2"] nm m
  have "\<exists>w'. remove_partition ?W (fakePartition 2) =
                Some (map_option CleanFailed (p_clean (node_value ?W 1)), w') \<and>
              list_nodes w' ([2] @ [0])"
    by (elim conjE allE [where x = "[2]"] allE [where x = 1] allE [where x = "[0]"]) auto
  with ev have "list_nodes
       \<lparr>store = [\<lparr>val = fakePartition 3, nxt = None\<rparr>, \<lparr>val = fakePartition 2, nxt = Some 0\<rparr>,
                 \<lparr>val = fakePartition 1, nxt = Some 0\<rparr>],
        lst = \<lparr>numPartitions = 2, head = Some 2, tail = None\<rparr>,
        cleaned = [fakePartition 2]\<rparr> [2, 0]" by auto
  with ln ev show ?thesis by simp
qed

text \<open>
  The claim as stated fails for a partition whose \<^verbatim>\<open>clean()\<close> returns an error: the list
  is not empty and its only node matches, yet \<^verbatim>\<open>remove\<close> returns an error (after
  unlinking the node).
\<close>

theorem remove_partition_clean_error_counterexample:
  "size_impl (insert_partition newPartitionList
      \<lparr>p_minTimestamp = 1, p_clean = Some ''failed to remove directory''\<rparr>) = 1 \<and>
   head (lst (insert_partition newPartitionList
      \<lparr>p_minTimestamp = 1, p_clean = Some ''failed to remove directory''\<rparr>)) = Some 0 \<and>
   samePartitions
     (node_value (insert_partition newPartitionList
        \<lparr>p_minTimestamp = 1, p_clean = Some ''failed to remove directory''\<rparr>) 0)
     \<lparr>p_minTimestamp = 1, p_clean = Some ''failed to remove directory''\<rparr> \<and>
   remove_partition (insert_partition newPartitionList
      \<lparr>p_minTimestamp = 1, p_clean = Some ''failed to remove directory''\<rparr>)
      \<lparr>p_minTimestamp = 1, p_clean = Some ''failed to remove directory''\<rparr> =
     Some (Some (CleanFailed ''failed to remove directory''),
       \<lparr>store = [\<lparr>val = \<lparr>p_minTimestamp = 1, p_clean = Some ''failed to remove directory''\<rparr>,
                  nxt = None\<rparr>],
        lst = \<lparr>numPartitions = 0, head = None, tail = None\<rparr>,
        cleaned = [\<lparr>p_minTimestamp = 1, p_clean = Some ''failed to remove directory''\<rparr>]\<rparr>)"
  by (simp add: insert_partition_def newPartitionList_def new_node_def setHead_def
        add_numPartitions_def remove_partition_def size_impl_def newIterator_def
        remove_loop.simps getNext_def node_value_def samePartitions_def remove_current_def
        Let_def)

lemma path_agree:
  "path h p rs q \<Longrightarrow> \<forall>r\<in>set rs. r < length h' \<and> nxt (h' ! r) = nxt (h ! r) \<Longrightarrow>
     path h' p rs q"
  by (induction rs arbitrary: p) auto

lemma insert_partition_list_nodes:
  assumes "list_nodes w rs"
  shows "list_nodes (insert_partition w p) (length (store w) # rs)"
proof -
  let ?h = "store w" and ?n = "length (store w)"
  let ?h1 = "?h @ [\<lparr>val = p, nxt = None\<rparr>]"
  let ?h2 = "if head (lst w) \<noteq> None then ?h1[?n := (?h1 ! ?n)\<lparr>nxt := head (lst w)\<rparr>] else ?h1"
  from assms have c: "path ?h (head (lst w)) rs None"
    and sz: "numPartitions (lst w) = int (length rs)"
    by (simp_all add: list_nodes_def chain_def)
  have eq: "insert_partition w p =
          w\<lparr>store := ?h2, lst := (lst w)\<lparr>head := Some ?n, numPartitions := numPartitions (lst w) + 1\<rparr>\<rparr>"
    by (simp add: insert_partition_def new_node_def setNext_def setHead_def add_numPartitions_def)
  from path_bound [OF c]
  have "\<forall>r\<in>set rs. r < length ?h2 \<and> nxt (?h2 ! r) = nxt (?h ! r)"
    by (auto simp: nth_append)
  with c have c2: "path ?h2 (head (lst w)) rs None" by (rule path_agree)
  have nx: "nxt (?h2 ! ?n) = head (lst w)" by (cases "head (lst w)") simp_all
  have len: "?n < length ?h2" by simp
  from c2 nx len have "path ?h2 (Some ?n) (?n # rs) None" by simp
  with sz show ?thesis by (simp add: eq list_nodes_def chain_def)
qed

lemma swap_loop_scan:
  assumes "path (store w) (iter_next w it) xs q"
    and "\<forall>x\<in>set xs. \<not> samePartitions (node_value w x) old"
  shows "swap_loop old new prev it w =
           swap_loop old new (if xs = [] then prev else Some (last xs))
             (if xs = [] then it else At (Some (last xs))) w \<and>
         iter_next w (if xs = [] then it else At (Some (last xs))) = q"
  using assms
proof (induction xs arbitrary: prev it)
  case Nil
  then show ?case by simp
next
  case (Cons x xs)
  from Cons.prems(1) have nx: "iter_next w it = Some x"
    and pa: "path (store w) (iter_next w (At (Some x))) xs q"
    by (simp_all add: getNext_def)
  from Cons.prems(2) have nm: "\<not> samePartitions (node_value w x) old"
    and rest: "\<forall>y\<in>set xs. \<not> samePartitions (node_value w y) old" by simp_all
  have step: "swap_loop old new prev it w = swap_loop old new (Some x) (At (Some x)) w"
    using nx nm by (subst swap_loop.simps) simp
  from Cons.IH [OF pa rest, of "Some x"] step
  show ?case by (cases "xs = []") simp_all
qed

lemma swap_partition_not_found:
  assumes "list_nodes w rs"
    and "\<forall>x\<in>set rs. \<not> samePartitions (node_value w x) old"
  shows "swap_partition w old new =
           Some (Some (if rs = [] then EmptyPartition else PartitionNotFound), w)"
proof (cases "rs = []")
  case True
  with assms(1) show ?thesis by (simp add: list_nodes_def swap_partition_def size_impl_def)
next
  case False
  from assms(1) have pa: "path (store w) (iter_next w (newIterator w)) rs None"
    and sz: "\<not> size_impl w \<le> 0"
    using False by (simp_all add: list_nodes_def chain_def newIterator_def size_impl_def)
  from swap_loop_scan [OF pa assms(2), of new None] False
  have a: "swap_loop old new None (newIterator w) w =
             swap_loop old new (Some (last rs)) (At (Some (last rs))) w"
    and b: "iter_next w (At (Some (last rs))) = None" by simp_all
  have "swap_loop old new (Some (last rs)) (At (Some (last rs))) w = Some (Some PartitionNotFound, w)"
    using b by (subst swap_loop.simps) simp
  with a sz False show ?thesis by (simp add: swap_partition_def)
qed

lemma swap_partition_found:
  assumes "list_nodes w (xs @ r # ys)"
    and "\<forall>x\<in>set xs. \<not> samePartitions (node_value w x) old"
    and "samePartitions (node_value w r) old"
  shows "swap_partition w old new =
           Some (swap_current w new (if xs = [] then None else Some (last xs)) r)"
proof -
  from assms(1) have "path (store w) (head (lst w)) (xs @ r # ys) None"
    and sz: "\<not> size_impl w \<le> 0"
    by (simp_all add: list_nodes_def chain_def size_impl_def)
  then have pa: "path (store w) (iter_next w (newIterator w)) xs (Some r)"
    by (auto simp: path_append newIterator_def)
  let ?prev = "if xs = [] then None else Some (last xs)"
  let ?it = "if xs = [] then newIterator w else At (Some (last xs))"
  from swap_loop_scan [OF pa assms(2), of new None]
  have a: "swap_loop old new None (newIterator w) w = swap_loop old new ?prev ?it w"
    and b: "iter_next w ?it = Some r" by simp_all
  have "swap_loop old new ?prev ?it w = Some (swap_current w new ?prev r)"
    using b assms(3) by (subst swap_loop.simps) simp
  with a sz show ?thesis by (simp add: swap_partition_def)
qed

lemma swap_current_list_nodes:
  assumes ln: "list_nodes w (xs @ r # ys)"
  shows "list_nodes (snd (swap_current w new (if xs = [] then None else Some (last xs)) r))
           (xs @ length (store w) # ys)"
proof -
  note sp = list_nodes_split [OF ln]
  let ?h = "store w" and ?n = "length (store w)"
  let ?h1 = "?h @ [\<lparr>val = new, nxt = nxt (?h ! r)\<rparr>]"
  from ln have bound: "\<forall>x\<in>set (xs @ r # ys). x < ?n"
    by (auto simp: list_nodes_def chain_def dest: path_bound)
  have nr: "nxt (?h1 ! r) = nxt (?h ! r)" using sp(2) by (simp add: nth_append)
  have cy: "path ?h1 (nxt (?h ! r)) ys None"
    using sp(3) unfolding chain_def by (rule path_store_append)
  show ?thesis
  proof (cases "xs = []")
    case True
    have eq: "snd (swap_current w new None r) =
                w\<lparr>store := ?h1, lst := (lst w)\<lparr>head := Some ?n\<rparr>\<rparr>"
      by (simp add: swap_current_def new_node_def getNext_def setHead_def)
    have "path ?h1 (Some ?n) (?n # ys) None" using cy by simp
    with sp(5) True show ?thesis by (simp add: eq list_nodes_def chain_def)
  next
    case False
    then obtain xs' pr where xs: "xs = xs' @ [pr]" by (cases xs rule: rev_cases) auto
    from sp(1) xs have p1: "path ?h (head (lst w)) xs' (Some pr)" and prl: "pr < ?n"
      by (auto simp: path_append)
    from sp(4) xs have d1: "pr \<notin> set xs'" and d2: "pr \<notin> set ys" by auto
    let ?h2 = "?h1[pr := (?h1 ! pr)\<lparr>nxt := Some ?n\<rparr>]"
    have st: "store (snd (swap_current w new (Some pr) r)) = ?h2"
      and hd: "head (lst (snd (swap_current w new (Some pr) r))) = head (lst w)"
      and np: "numPartitions (lst (snd (swap_current w new (Some pr) r))) = numPartitions (lst w)"
      by (simp_all add: swap_current_def new_node_def getNext_def setHead_def setTail_def
            setNext_def Let_def split: option.splits)
    have a: "path ?h2 (head (lst w)) xs' (Some pr)"
      using path_store_append [OF p1] d1 by (simp add: path_update)
    have nn: "nxt (?h2 ! ?n) = nxt (?h ! r)" using prl by simp
    have cy2: "path ?h2 (nxt (?h ! r)) ys None" using cy d2 by (simp add: path_update)
    have "path ?h2 (Some pr) (pr # ?n # ys) None"
      using prl nn cy2 by simp
    with a have "path ?h2 (head (lst w)) (xs' @ pr # ?n # ys) None"
      unfolding path_append by blast
    with sp(5) xs st hd np show ?thesis by (simp add: list_nodes_def chain_def)
  qed
qed

lemma apply_op_list_nodes:
  assumes "list_nodes w rs"
  shows "\<exists>w' rs'. apply_op w x = Some w' \<and> list_nodes w' rs'"
proof (cases x)
  case (Insert p)
  with insert_partition_list_nodes [OF assms] show ?thesis by auto
next
  case (Remove p)
  show ?thesis
  proof (cases "\<exists>r\<in>set rs. samePartitions (node_value w r) p")
    case False
    with remove_partition_not_found [OF assms, of p] assms Remove show ?thesis by auto
  next
    case True
    from split_list_first_prop [OF True]
    obtain xs r ys where rs: "rs = xs @ r # ys" and m: "samePartitions (node_value w r) p"
      and nm: "\<forall>x\<in>set xs. \<not> samePartitions (node_value w x) p" by blast
    from assms rs have ln: "list_nodes w (xs @ r # ys)" by simp
    obtain err w' where rc: "remove_current w (if xs = [] then None else Some (last xs)) r = (err, w')"
      by (cases "remove_current w (if xs = [] then None else Some (last xs)) r")
    from remove_partition_found [OF ln nm m] rc remove_current_effect [OF ln rc] Remove
    show ?thesis by auto
  qed
next
  case (Swap old new)
  show ?thesis
  proof (cases "\<exists>r\<in>set rs. samePartitions (node_value w r) old")
    case False
    with swap_partition_not_found [OF assms, of old new] assms Swap show ?thesis by auto
  next
    case True
    from split_list_first_prop [OF True]
    obtain xs r ys where rs: "rs = xs @ r # ys" and m: "samePartitions (node_value w r) old"
      and nm: "\<forall>x\<in>set xs. \<not> samePartitions (node_value w x) old" by blast
    from assms rs have ln: "list_nodes w (xs @ r # ys)" by simp
    from swap_partition_found [OF ln nm m, of new] swap_current_list_nodes [OF ln, of new] Swap
    show ?thesis by auto
  qed
qed

lemma apply_ops_list_nodes:
  "list_nodes w rs \<Longrightarrow> \<exists>w' rs'. apply_ops w ops = Some w' \<and> list_nodes w' rs'"
proof (induction ops arbitrary: w rs)
  case Nil
  then show ?case by auto
next
  case (Cons x ops)
  from apply_op_list_nodes [OF Cons.prems, of x]
  obtain w1 rs1 where a: "apply_op w x = Some w1" and l: "list_nodes w1 rs1" by blast
  from Cons.IH [OF l] a show ?case by simp
qed

lemma list_ops_keep_size:
  "\<exists>w rs. apply_ops newPartitionList ops = Some w \<and>
          chain (store w) (head (lst w)) rs \<and> size_impl w = int (length rs) \<and>
          (head (lst w) = None \<longleftrightarrow> size_impl w = 0)"
proof -
  have "list_nodes newPartitionList []"
    by (simp add: list_nodes_def chain_def newPartitionList_def)
  from apply_ops_list_nodes [OF this, of ops]
  obtain w rs where a: "apply_ops newPartitionList ops = Some w" and l: "list_nodes w rs" by blast
  from l have c: "chain (store w) (head (lst w)) rs" and s: "size_impl w = int (length rs)"
    by (simp_all add: list_nodes_def size_impl_def)
  from c have "head (lst w) = None \<longleftrightarrow> rs = []" by (cases rs) (simp_all add: chain_def)
  with a c s show ?thesis by auto
qed

text \<open>
  Claim C2 fails on the code: \<^verbatim>\<open>insert\<close> never sets \<^verbatim>\<open>tail\<close>. After one
  \<^verbatim>\<open>insert\<close> into the empty list \<^verbatim>\<open>head\<close> is the new node and \<^verbatim>\<open>size()\<close> is 1,
  but \<^verbatim>\<open>tail\<close> is still nil.
\<close>

theorem insert_leaves_tail_nil:
  "apply_ops newPartitionList [Insert (fakePartition 1)] =
     Some \<lparr>store = [\<lparr>val = fakePartition 1, nxt = None\<rparr>],
           lst = \<lparr>numPartitions = 1, head = Some 0, tail = None\<rparr>, cleaned = []\<rparr>"
  by (simp add: insert_partition_def newPartitionList_def new_node_def setHead_def
        add_numPartitions_def)

text \<open>
  Removing the sole node does not reset \<^verbatim>\<open>tail\<close> either: after inserting 3 and 2,
  removing 3 (which sets \<^verbatim>\<open>tail\<close> to the node of 2) and removing 2, the list is empty
  (\<^verbatim>\<open>head\<close> nil, \<^verbatim>\<open>size()\<close> 0) and \<^verbatim>\<open>tail\<close> still points to the removed node.
\<close>

lemma remove_sole_node_leaves_tail:
  "apply_ops newPartitionList
     [Insert (fakePartition 3), Insert (fakePartition 2),
      Remove (fakePartition 3), Remove (fakePartition 2)] =
     Some \<lparr>store = [\<lparr>val = fakePartition 3, nxt = None\<rparr>, \<lparr>val = fakePartition 2, nxt = None\<rparr>],
           lst = \<lparr>numPartitions = 0, head = None, tail = Some 1\<rparr>,
           cleaned = [fakePartition 3, fakePartition 2]\<rparr>"
  by (simp add: insert_partition_def newPartitionList_def new_node_def setHead_def setNext_def
        setTail_def add_numPartitions_def remove_partition_def size_impl_def newIterator_def
        remove_loop.simps getNext_def node_value_def samePartitions_def fakePartition_def
        remove_current_def Let_def)

text \<open>
  The part of C2 about \<^verbatim>\<open>size\<close> and \<^verbatim>\<open>head\<close> holds: see \<open>list_ops_keep_size\<close>.
\<close>

end
